theory Spec2Isabelle
  imports Main "HOL-Library.Multiset"
begin

section \<open>ThreadsafeQueue: the two-lock linked queue of threadsafe\_queue.hpp\<close>

text \<open>
  The queue is a singly linked chain of heap nodes with a data-less sentinel at the tail end.
  The model keeps the nodes in an explicit store, since \<open>head\<close> (owning) and \<open>tail\<close>
  (non-owning) point into the same chain and \<open>empty\<close> compares the two pointers.

  Every member function is modelled as it runs when no other thread interferes:
  a \<open>lock_guard\<close> is then acquired at once and released at the end of its scope, so the
  mutexes leave no trace in the state. A condition-variable wait whose predicate is false
  has nobody to wake it up and is the outcome \<open>WaitsForever\<close>. Dereferencing a null or
  dangling pointer (undefined behaviour in C++) is the outcome \<open>NullDereference\<close>.
  The thread pool adds \<open>SpinsForever\<close> (a worker loop whose flag nobody sets any more) and
  \<open>Terminate\<close> (an exception leaving a thread function, which calls \<open>std::terminate\<close>).
\<close>

type_synonym addr = nat

datatype abort = NullDereference | WaitsForever | SpinsForever | Terminate

text \<open>
  \<open>struct node { std::shared_ptr<T> data; std::unique_ptr<node> next; }\<close>:
  a null \<open>shared_ptr\<close> or \<open>unique_ptr\<close> is \<open>None\<close>.
\<close>

record 'a node =
  data :: "'a option"
  next_node :: "addr option"

text \<open>
  The data members \<open>head\<close> (a \<open>unique_ptr<node>\<close>, possibly null) and \<open>tail\<close>
  (a raw pointer that is only ever assigned the address of a node). \<open>heap\<close> holds the nodes owned
  through the chain; \<open>next_free\<close> is the address the next \<open>new node\<close> returns.
\<close>

record 'a ThreadsafeQueue =
  heap :: "addr \<rightharpoonup> 'a node"
  next_free :: addr
  head :: "addr option"
  tail :: addr

text \<open>
  \<open>new node\<close>: a value-less node with a null \<open>next\<close>, at a fresh address. Memory does
  not run out: \<open>new\<close> and \<open>std::make_shared\<close> always succeed.
\<close>

definition new_node :: "'a ThreadsafeQueue \<Rightarrow> addr \<times> 'a ThreadsafeQueue" where
  "new_node q =
     (next_free q,
      q\<lparr>heap := (heap q)(next_free q \<mapsto> \<lparr>data = None, next_node = None\<rparr>),
        next_free := Suc (next_free q)\<rparr>)"

definition get_tail :: "'a ThreadsafeQueue \<Rightarrow> addr" where
  "get_tail q = tail q"

text \<open>
  \<open>pop_head\<close>: \<open>old_head = std::move(head); head = std::move(old_head->next); return old_head\<close>.
  The node leaves the chain the queue owns and is handed to the caller by value; its \<open>next\<close>
  has been moved from, so it is null.
\<close>

definition pop_head :: "'a ThreadsafeQueue \<Rightarrow> abort + ('a node \<times> 'a ThreadsafeQueue)" where
  "pop_head q =
     (case head q of
        None \<Rightarrow> Inl NullDereference
      | Some h \<Rightarrow>
          (case heap q h of
             None \<Rightarrow> Inl NullDereference
           | Some old_head \<Rightarrow>
               Inr (old_head\<lparr>next_node := None\<rparr>,
                    q\<lparr>head := next_node old_head, heap := (heap q)(h := None)\<rparr>)))"

text \<open>
  \<open>wait_for_data\<close>: \<open>data_cond.wait(head_lock, [&]{return head.get()!=get_tail();})\<close>.
\<close>

definition wait_for_data :: "'a ThreadsafeQueue \<Rightarrow> abort + 'a ThreadsafeQueue" where
  "wait_for_data q = (if head q \<noteq> Some (get_tail q) then Inr q else Inl WaitsForever)"

definition wait_pop_head :: "'a ThreadsafeQueue \<Rightarrow> abort + ('a node \<times> 'a ThreadsafeQueue)" where
  "wait_pop_head q =
     (case wait_for_data q of
        Inl e \<Rightarrow> Inl e
      | Inr q' \<Rightarrow> pop_head q')"

text \<open>
  \<open>value = std::move(*head->data)\<close>: reads through \<open>head\<close> and through the node's
  \<open>data\<close> pointer; the result is the new content of the caller's variable.
\<close>

definition move_head_data :: "'a ThreadsafeQueue \<Rightarrow> abort + 'a" where
  "move_head_data q =
     (case head q of
        None \<Rightarrow> Inl NullDereference
      | Some h \<Rightarrow>
          (case heap q h of
             None \<Rightarrow> Inl NullDereference
           | Some n \<Rightarrow>
               (case data n of
                  None \<Rightarrow> Inl NullDereference
                | Some v \<Rightarrow> Inr v)))"

text \<open>
  The overloads taking \<open>T& value\<close> get the suffix \<open>_value\<close>; they take the old content of
  the caller's variable and return the new one next to the result. The node they hand back
  still points at the object that was moved from; its callers only test the node for null.
\<close>

definition wait_pop_head_value ::
  "'a \<Rightarrow> 'a ThreadsafeQueue \<Rightarrow> abort + ('a node \<times> 'a \<times> 'a ThreadsafeQueue)" where
  "wait_pop_head_value val q =
     (case wait_for_data q of
        Inl e \<Rightarrow> Inl e
      | Inr q' \<Rightarrow>
          (case move_head_data q' of
             Inl e \<Rightarrow> Inl e
           | Inr v \<Rightarrow>
               (case pop_head q' of
                  Inl e \<Rightarrow> Inl e
                | Inr (old_head, q'') \<Rightarrow> Inr (old_head, v, q''))))"

definition try_pop_head ::
  "'a ThreadsafeQueue \<Rightarrow> abort + ('a node option \<times> 'a ThreadsafeQueue)" where
  "try_pop_head q =
     (if head q = Some (get_tail q) then Inr (None, q)
      else (case pop_head q of
              Inl e \<Rightarrow> Inl e
            | Inr (old_head, q') \<Rightarrow> Inr (Some old_head, q')))"

definition try_pop_head_value ::
  "'a \<Rightarrow> 'a ThreadsafeQueue \<Rightarrow> abort + ('a node option \<times> 'a \<times> 'a ThreadsafeQueue)" where
  "try_pop_head_value val q =
     (if head q = Some (get_tail q) then Inr (None, val, q)
      else (case move_head_data q of
              Inl e \<Rightarrow> Inl e
            | Inr v \<Rightarrow>
                (case pop_head q of
                   Inl e \<Rightarrow> Inl e
                 | Inr (old_head, q') \<Rightarrow> Inr (Some old_head, v, q'))))"

text \<open>The constructor: \<open>head(new node), tail(head.get())\<close>.\<close>

definition ThreadsafeQueue_init :: "'a ThreadsafeQueue" where
  "ThreadsafeQueue_init =
     \<lparr>heap = [0 \<mapsto> \<lparr>data = None, next_node = None\<rparr>], next_free = 1, head = Some 0, tail = 0\<rparr>"

text \<open>
  \<open>std::shared_ptr<T> try_pop()\<close>: \<open>old_head ? old_head->data : std::shared_ptr<T>()\<close>.
\<close>

definition try_pop :: "'a ThreadsafeQueue \<Rightarrow> abort + ('a option \<times> 'a ThreadsafeQueue)" where
  "try_pop q =
     (case try_pop_head q of
        Inl e \<Rightarrow> Inl e
      | Inr (old_head, q') \<Rightarrow>
          Inr ((case old_head of Some n \<Rightarrow> data n | None \<Rightarrow> None), q'))"

text \<open>\<open>bool try_pop(T& value)\<close>: the result is whether \<open>old_head\<close> is non-null.\<close>

definition try_pop_value ::
  "'a \<Rightarrow> 'a ThreadsafeQueue \<Rightarrow> abort + (bool \<times> 'a \<times> 'a ThreadsafeQueue)" where
  "try_pop_value val q =
     (case try_pop_head_value val q of
        Inl e \<Rightarrow> Inl e
      | Inr (old_head, val', q') \<Rightarrow> Inr (old_head \<noteq> None, val', q'))"

text \<open>\<open>std::shared_ptr<T> wait_and_pop()\<close>: \<open>return old_head->data\<close>.\<close>

definition wait_and_pop :: "'a ThreadsafeQueue \<Rightarrow> abort + ('a option \<times> 'a ThreadsafeQueue)" where
  "wait_and_pop q =
     (case wait_pop_head q of
        Inl e \<Rightarrow> Inl e
      | Inr (old_head, q') \<Rightarrow> Inr (data old_head, q'))"

text \<open>\<open>void wait_and_pop(T& value)\<close>.\<close>

definition wait_and_pop_value ::
  "'a \<Rightarrow> 'a ThreadsafeQueue \<Rightarrow> abort + ('a \<times> 'a ThreadsafeQueue)" where
  "wait_and_pop_value val q =
     (case wait_pop_head_value val q of
        Inl e \<Rightarrow> Inl e
      | Inr (old_head, val', q') \<Rightarrow> Inr (val', q'))"

text \<open>
  \<open>push\<close>: \<open>new_data\<close> is a non-null \<open>shared_ptr\<close>, \<open>p\<close> the new sentinel;
  then \<open>tail->data = new_data; tail->next = std::move(p); tail = new_tail\<close>.
\<close>

definition push :: "'a \<Rightarrow> 'a ThreadsafeQueue \<Rightarrow> abort + 'a ThreadsafeQueue" where
  "push new_value q =
     (let new_data = Some new_value;
          (p, q1) = new_node q
      in (case heap q1 (tail q1) of
            None \<Rightarrow> Inl NullDereference
          | Some t \<Rightarrow>
              Inr (q1\<lparr>heap := (heap q1)(tail q1 \<mapsto> t\<lparr>data := new_data, next_node := Some p\<rparr>),
                      tail := p\<rparr>)))"

text \<open>\<open>empty\<close>: \<open>head.get()==get_tail()\<close>.\<close>

definition empty_queue :: "'a ThreadsafeQueue \<Rightarrow> bool" where
  "empty_queue q = (head q = Some (get_tail q))"

text \<open>
  The implicit destructor. \<open>~unique_ptr<node>\<close> deletes the node it owns, and \<open>~node\<close>
  destroys \<open>next\<close>, the member declared last, before \<open>data\<close>; a \<open>shared_ptr\<close> that
  was the only owner destroys its \<open>T\<close>. The result is the values destroyed, in that order.
  The first argument bounds the nodes visited by the number of addresses handed out: a
  longer chain comes back to a node that is deleted already.
\<close>

fun release :: "nat \<Rightarrow> (addr \<rightharpoonup> 'a node) \<Rightarrow> addr option \<Rightarrow> abort + 'a list" where
  "release n hp None = Inr []"
| "release 0 hp (Some a) = Inl NullDereference"
| "release (Suc n) hp (Some a) =
     (case hp a of
        None \<Rightarrow> Inl NullDereference
      | Some nd \<Rightarrow>
          (case release n hp (next_node nd) of
             Inl e \<Rightarrow> Inl e
           | Inr vs \<Rightarrow> Inr (vs @ (case data nd of None \<Rightarrow> [] | Some v \<Rightarrow> [v]))))"

definition ThreadsafeQueue_destroy :: "'a ThreadsafeQueue \<Rightarrow> abort + 'a list" where
  "ThreadsafeQueue_destroy q = release (next_free q) (heap q) (head q)"

subsection \<open>Sequences of calls by one thread\<close>

fun push_all :: "'a list \<Rightarrow> 'a ThreadsafeQueue \<Rightarrow> abort + 'a ThreadsafeQueue" where
  "push_all [] q = Inr q"
| "push_all (v # vs) q =
     (case push v q of
        Inl e \<Rightarrow> Inl e
      | Inr q' \<Rightarrow> push_all vs q')"

text \<open>\<open>n\<close> successive calls of \<open>try_pop()\<close>, with the results in call order.\<close>

fun try_pop_n :: "nat \<Rightarrow> 'a ThreadsafeQueue \<Rightarrow> abort + ('a option list \<times> 'a ThreadsafeQueue)" where
  "try_pop_n 0 q = Inr ([], q)"
| "try_pop_n (Suc n) q =
     (case try_pop q of
        Inl e \<Rightarrow> Inl e
      | Inr (r, q') \<Rightarrow>
          (case try_pop_n n q' of
             Inl e \<Rightarrow> Inl e
           | Inr (rs, q'') \<Rightarrow> Inr (r # rs, q'')))"

text \<open>
  \<open>n\<close> successive calls of \<open>try_pop(value)\<close> on one variable: each result is the
  returned flag with the variable's content after the call.
\<close>

fun try_pop_value_n ::
  "nat \<Rightarrow> 'a \<Rightarrow> 'a ThreadsafeQueue \<Rightarrow> abort + ((bool \<times> 'a) list \<times> 'a \<times> 'a ThreadsafeQueue)" where
  "try_pop_value_n 0 val q = Inr ([], val, q)"
| "try_pop_value_n (Suc n) val q =
     (case try_pop_value val q of
        Inl e \<Rightarrow> Inl e
      | Inr (b, val', q') \<Rightarrow>
          (case try_pop_value_n n val' q' of
             Inl e \<Rightarrow> Inl e
           | Inr (rs, val'', q'') \<Rightarrow> Inr ((b, val') # rs, val'', q'')))"

subsection \<open>The chain from head to tail and the values it holds\<close>

text \<open>
  \<open>chain hp a xs t\<close>: following \<open>next\<close> from address \<open>a\<close> visits exactly the addresses
  \<open>map fst xs\<close>, whose nodes hold the values \<open>map snd xs\<close>, and then arrives at \<open>t\<close>.
\<close>

fun chain :: "(addr \<rightharpoonup> 'a node) \<Rightarrow> addr \<Rightarrow> (addr \<times> 'a) list \<Rightarrow> addr \<Rightarrow> bool" where
  "chain hp a [] t = (a = t)"
| "chain hp a (x # xs) t =
     (fst x = a \<and>
      (case hp a of
         None \<Rightarrow> False
       | Some n \<Rightarrow>
           data n = Some (snd x) \<and>
           (case next_node n of
              None \<Rightarrow> False
            | Some b \<Rightarrow> chain hp b xs t)))"

text \<open>
  The representation invariant: the chain from \<open>head\<close> reaches \<open>tail\<close> without visiting a
  node twice, every node of it lives at an address the allocator has handed out, and
  \<open>tail\<close> is the data-less sentinel with a null \<open>next\<close>.
\<close>

definition queue_chain :: "'a ThreadsafeQueue \<Rightarrow> (addr \<times> 'a) list \<Rightarrow> bool" where
  "queue_chain q xs =
     ((case head q of None \<Rightarrow> False | Some h \<Rightarrow> chain (heap q) h xs (tail q)) \<and>
      distinct (map fst xs @ [tail q]) \<and>
      list_all (\<lambda>a. a < next_free q) (map fst xs @ [tail q]) \<and>
      heap q (tail q) = Some \<lparr>data = None, next_node = None\<rparr>)"

text \<open>
  The chain read off the store: at most \<open>n\<close> steps along \<open>next\<close> from \<open>a\<close>, stopping
  at \<open>t\<close>; \<open>None\<close> when \<open>t\<close> is not met or a node on the way has no data or no successor.
\<close>

fun path :: "nat \<Rightarrow> (addr \<rightharpoonup> 'a node) \<Rightarrow> addr \<Rightarrow> addr \<Rightarrow> (addr \<times> 'a) list option" where
  "path 0 hp a t = (if a = t then Some [] else None)"
| "path (Suc n) hp a t =
     (if a = t then Some []
      else (case hp a of
              None \<Rightarrow> None
            | Some nd \<Rightarrow>
                (case data nd of
                   None \<Rightarrow> None
                 | Some v \<Rightarrow>
                     (case next_node nd of
                        None \<Rightarrow> None
                      | Some b \<Rightarrow>
                          (case path n hp b t of
                             None \<Rightarrow> None
                           | Some xs \<Rightarrow> Some ((a, v) # xs))))))"

text \<open>\<open>holds q vs\<close>: the queue is well formed and holds the values \<open>vs\<close>, oldest first.\<close>

definition holds :: "'a ThreadsafeQueue \<Rightarrow> 'a list \<Rightarrow> bool" where
  "holds q vs =
     (case head q of
        None \<Rightarrow> False
      | Some h \<Rightarrow>
          (case path (next_free q) (heap q) h (tail q) of
             None \<Rightarrow> False
           | Some xs \<Rightarrow> queue_chain q xs \<and> map snd xs = vs))"


subsection \<open>Histories of calls and the queue they describe\<close>

text \<open>
  A call of a public member function; the overloads with \<open>T& value\<close> carry the content of
  the caller's variable.
\<close>

datatype 'a call = Push 'a | TryPop | TryPopValue 'a | WaitAndPop | WaitAndPopValue 'a | Empty

text \<open>The queue after one call (its result dropped).\<close>

fun call_queue :: "'a call \<Rightarrow> 'a ThreadsafeQueue \<Rightarrow> abort + 'a ThreadsafeQueue" where
  "call_queue (Push v) q = push v q"
| "call_queue TryPop q =
     (case try_pop q of Inl e \<Rightarrow> Inl e | Inr (r, q') \<Rightarrow> Inr q')"
| "call_queue (TryPopValue val) q =
     (case try_pop_value val q of Inl e \<Rightarrow> Inl e | Inr (b, val', q') \<Rightarrow> Inr q')"
| "call_queue WaitAndPop q =
     (case wait_and_pop q of Inl e \<Rightarrow> Inl e | Inr (r, q') \<Rightarrow> Inr q')"
| "call_queue (WaitAndPopValue val) q =
     (case wait_and_pop_value val q of Inl e \<Rightarrow> Inl e | Inr (val', q') \<Rightarrow> Inr q')"
| "call_queue Empty q = Inr q"

fun calls :: "'a call list \<Rightarrow> 'a ThreadsafeQueue \<Rightarrow> abort + 'a ThreadsafeQueue" where
  "calls [] q = Inr q"
| "calls (c # cs) q =
     (case call_queue c q of
        Inl e \<Rightarrow> Inl e
      | Inr q' \<Rightarrow> calls cs q')"

text \<open>
  What the queue logically contains, in the words of the specification: a FIFO that grows by
  one element per push and shrinks by one per successful pop. This definition never looks at
  a pointer.
\<close>

fun spec_call :: "'a list \<Rightarrow> 'a call \<Rightarrow> 'a list" where
  "spec_call vs (Push v) = vs @ [v]"
| "spec_call vs Empty = vs"
| "spec_call vs c = (case vs of [] \<Rightarrow> [] | v # ws \<Rightarrow> ws)"

definition spec_contents :: "'a call list \<Rightarrow> 'a list" where
  "spec_contents cs = foldl spec_call [] cs"

definition is_pop :: "'a call \<Rightarrow> bool" where
  "is_pop c = (case c of Push v \<Rightarrow> False | Empty \<Rightarrow> False | _ \<Rightarrow> True)"

section \<open>FunctionWrapper\<close>

text \<open>
  \<open>std::unique_ptr<impl_base> impl\<close>; an \<open>impl_type<F>\<close> holds the callable \<open>f\<close> of
  type \<open>F\<close>. \<open>FunctionWrapper() = default\<close> leaves \<open>impl\<close> null.
\<close>

record 'f FunctionWrapper =
  impl :: "'f option"

definition FunctionWrapper_default :: "'f FunctionWrapper" where
  "FunctionWrapper_default = \<lparr>impl = None\<rparr>"

text \<open>\<open>FunctionWrapper(F&& f): impl(new impl_type<F>(std::move(f)))\<close>.\<close>

definition FunctionWrapper_from :: "'f \<Rightarrow> 'f FunctionWrapper" where
  "FunctionWrapper_from f = \<lparr>impl = Some f\<rparr>"

text \<open>
  \<open>void operator()() { impl->call(); }\<close>, with \<open>call\<close> running \<open>f()\<close> on the state
  \<open>s\<close> of the program; \<open>run\<close> is what calling an \<open>F\<close> does.
\<close>

definition invoke :: "('f \<Rightarrow> 's \<Rightarrow> abort + 's) \<Rightarrow> 'f FunctionWrapper \<Rightarrow> 's \<Rightarrow> abort + 's" where
  "invoke run w s =
     (case impl w of
        None \<Rightarrow> Inl NullDereference
      | Some f \<Rightarrow> run f s)"

text \<open>
  The implicit destructor: \<open>~unique_ptr<impl_base>\<close> destroys the \<open>impl_type<F>\<close> and
  with it the \<open>F\<close> it holds; \<open>destroy\<close> is what destroying an \<open>F\<close> does.
\<close>

definition FunctionWrapper_destroy :: "('f \<Rightarrow> 's \<Rightarrow> 's) \<Rightarrow> 'f FunctionWrapper \<Rightarrow> 's \<Rightarrow> 's" where
  "FunctionWrapper_destroy destroy w s =
     (case impl w of
        None \<Rightarrow> s
      | Some f \<Rightarrow> destroy f s)"

section \<open>ThreadPool\<close>

text \<open>
  The standard library's part. A callable of type \<open>FunctionType\<close> is modelled by what a call
  of it comes to: \<open>Inr v\<close> when it returns \<open>v\<close>, \<open>Inl e\<close> when it throws \<open>e\<close>.
  The shared state behind a \<open>std::packaged_task\<close> and its \<open>std::future\<close> is not ready,
  or holds that outcome, or holds the \<open>broken_promise\<close> error of a task that was destroyed
  before it ran; a future is the index of its shared state.
\<close>

type_synonym ('e, 'r) callable = "unit \<Rightarrow> 'e + 'r"

datatype ('e, 'r) shared_state = NotReady | Ready "'e + 'r" | BrokenPromise

record ('e, 'r) packaged_task =
  callable :: "('e, 'r) callable"
  promise :: nat

text \<open>A \<open>std::thread\<close> handle.\<close>

record thread =
  joinable :: bool

text \<open>What the pool did, in order: history that no code reads.\<close>

datatype event = Spawned nat | ShutdownSet | Joined nat | Invoked nat

text \<open>
  The data members \<open>done\<close> (here \<open>done_flag\<close>), \<open>work_queue\<close> and \<open>threads\<close>;
  \<open>joiner\<close> is a reference to \<open>threads\<close> and has no state of its own. With them the
  shared states of the futures handed out (\<open>next_promise\<close> is the next index) and the history.
\<close>

record ('e, 'r) ThreadPool =
  done_flag :: bool
  work_queue :: "('e, 'r) packaged_task FunctionWrapper ThreadsafeQueue"
  threads :: "thread list"
  shared_states :: "nat \<rightharpoonup> ('e, 'r) shared_state"
  next_promise :: nat
  events :: "event list"

text \<open>
  \<open>std::packaged_task::operator()\<close>: runs the callable and stores its value or its exception
  in the shared state. On a task that has run already it throws \<open>std::future_error\<close>, which
  nothing in \<open>worker_thread\<close> catches.
\<close>

definition run_task :: "('e, 'r) packaged_task \<Rightarrow> ('e, 'r) ThreadPool \<Rightarrow> abort + ('e, 'r) ThreadPool" where
  "run_task t p =
     (case shared_states p (promise t) of
        Some NotReady \<Rightarrow>
          Inr (p\<lparr>shared_states := (shared_states p)(promise t \<mapsto> Ready (callable t ())),
                 events := events p @ [Invoked (promise t)]\<rparr>)
      | _ \<Rightarrow> Inl Terminate)"

text \<open>
  \<open>~packaged_task\<close>: a shared state that is not ready yet is made ready with the error
  \<open>broken_promise\<close>.
\<close>

definition abandon ::
  "('e, 'r) packaged_task \<Rightarrow> (nat \<rightharpoonup> ('e, 'r) shared_state) \<Rightarrow> (nat \<rightharpoonup> ('e, 'r) shared_state)" where
  "abandon t states =
     (case states (promise t) of
        Some NotReady \<Rightarrow> states(promise t \<mapsto> BrokenPromise)
      | _ \<Rightarrow> states)"

text \<open>
  \<open>std::future::get\<close> comes to the value, to the stored exception rethrown, or to
  \<open>std::future_error\<close>; on a state that is not ready it waits.
\<close>

datatype ('e, 'r) got = Value 'r | Rethrown 'e | FutureError

definition fulfilled :: "'e + 'r \<Rightarrow> ('e, 'r) got" where
  "fulfilled r = (case r of Inl e \<Rightarrow> Rethrown e | Inr v \<Rightarrow> Value v)"

definition future_get ::
  "(nat \<rightharpoonup> ('e, 'r) shared_state) \<Rightarrow> nat \<Rightarrow> abort + ('e, 'r) got" where
  "future_get states fut =
     (case states fut of
        Some (Ready r) \<Rightarrow> Inr (fulfilled r)
      | Some BrokenPromise \<Rightarrow> Inr FutureError
      | _ \<Rightarrow> Inl WaitsForever)"

text \<open>
  One pass through the body of the loop in \<open>worker_thread\<close>:
  \<open>FunctionWrapper task; if(work_queue.try_pop(task)) task(); else std::this_thread::yield();\<close>
\<close>

definition worker_iteration :: "('e, 'r) ThreadPool \<Rightarrow> abort + ('e, 'r) ThreadPool" where
  "worker_iteration p =
     (let task = FunctionWrapper_default
      in (case try_pop_value task (work_queue p) of
            Inl e \<Rightarrow> Inl e
          | Inr (popped, task', q') \<Rightarrow>
              (if popped then invoke run_task task' (p\<lparr>work_queue := q'\<rparr>)
               else Inr (p\<lparr>work_queue := q'\<rparr>))))"

text \<open>
  \<open>submit\<close>: \<open>task(std::move(f))\<close> makes a fresh shared state, \<open>res\<close> is its future;
  \<open>work_queue.push(std::move(task))\<close> wraps the task in a \<open>FunctionWrapper\<close>.
\<close>

definition submit :: "('e, 'r) callable \<Rightarrow> ('e, 'r) ThreadPool \<Rightarrow> abort + (nat \<times> ('e, 'r) ThreadPool)" where
  "submit f p =
     (let task = \<lparr>callable = f, promise = next_promise p\<rparr>;
          res = promise task;
          p1 = p\<lparr>shared_states := (shared_states p)(res \<mapsto> NotReady),
                 next_promise := Suc (next_promise p)\<rparr>
      in (case push (FunctionWrapper_from task) (work_queue p1) of
            Inl e \<Rightarrow> Inl e
          | Inr q' \<Rightarrow> Inr (res, p1\<lparr>work_queue := q'\<rparr>)))"

text \<open>
  What the other threads do while a worker makes one pass through its loop, from the read
  of \<open>done\<close> to the end of the body: nothing; or the destructor's \<open>done=true\<close>, at any
  moment of the pass, also between the worker's read of \<open>done\<close> and its \<open>try_pop\<close>;
  or a caller's \<open>submit(f)\<close>, after the worker's \<open>try_pop\<close>.
\<close>

datatype ('e, 'r) meanwhile = Quiet | SetsDone | Submits "('e, 'r) callable"

text \<open>
  \<open>worker_thread\<close>: \<open>while(!done) { ... }\<close>. The flag is written and the queue is filled
  by other threads, so the function takes a schedule: its \<open>i\<close>-th entry says what they do
  while the \<open>i\<close>-th pass runs. Past the end of the schedule nobody sets the flag any more,
  and a loop that still reads \<open>false\<close> never ends.
\<close>

fun worker_thread ::
  "('e, 'r) meanwhile list \<Rightarrow> ('e, 'r) ThreadPool \<Rightarrow> abort + ('e, 'r) ThreadPool" where
  "worker_thread [] p = (if done_flag p then Inr p else Inl SpinsForever)"
| "worker_thread (others # schedule) p =
     (if done_flag p then Inr p
      else (case worker_iteration p of
              Inl e \<Rightarrow> Inl e
            | Inr p' \<Rightarrow>
                (case others of
                   Quiet \<Rightarrow> worker_thread schedule p'
                 | SetsDone \<Rightarrow> worker_thread schedule (p'\<lparr>done_flag := True\<rparr>)
                 | Submits f \<Rightarrow>
                     (case submit f p' of
                        Inl e \<Rightarrow> Inl e
                      | Inr (fut, p'') \<Rightarrow> worker_thread schedule p''))))"

text \<open>
  The first \<open>n\<close> passes of that loop while the other threads do nothing: the state of a
  worker that is still running.
\<close>

fun worker_passes :: "nat \<Rightarrow> ('e, 'r) ThreadPool \<Rightarrow> abort + ('e, 'r) ThreadPool" where
  "worker_passes 0 p = Inr p"
| "worker_passes (Suc n) p =
     (if done_flag p then Inr p
      else (case worker_iteration p of
              Inl e \<Rightarrow> Inl e
            | Inr p' \<Rightarrow> worker_passes n p'))"

text \<open>
  \<open>threads[i]\<close> is \<open>std::thread(&ThreadPool::worker_thread,this)\<close>: the \<open>i\<close>-th thread
  of the pool runs \<open>worker_thread\<close>. A pool that has no \<open>i\<close>-th thread has nothing
  running there, and stays as it is.
\<close>

definition run_thread ::
  "nat \<Rightarrow> ('e, 'r) meanwhile list \<Rightarrow> ('e, 'r) ThreadPool \<Rightarrow> abort + ('e, 'r) ThreadPool" where
  "run_thread i schedule p =
     (if i < length (threads p) then worker_thread schedule p else Inr p)"

text \<open>
  \<open>threads[i].join()\<close> returns when the worker's \<open>worker_thread\<close> has returned; here the
  worker stands at the head of its loop. The joining thread is the only one that writes
  \<open>done\<close>, so nothing sets the flag while it waits.
\<close>

definition join_thread :: "nat \<Rightarrow> ('e, 'r) ThreadPool \<Rightarrow> abort + ('e, 'r) ThreadPool" where
  "join_thread i p =
     (case worker_thread [] p of
        Inl e \<Rightarrow> Inl e
      | Inr p' \<Rightarrow>
          Inr (p'\<lparr>threads := (threads p')[i := \<lparr>joinable = False\<rparr>],
                  events := events p' @ [Joined i]\<rparr>))"

text \<open>
  \<open>~JoinThreads\<close>: \<open>for(i=0;i<threads.size();++i) if(threads[i].joinable()) threads[i].join();\<close>
  The first argument is the indices still to visit.
\<close>

fun join_each :: "nat list \<Rightarrow> ('e, 'r) ThreadPool \<Rightarrow> abort + ('e, 'r) ThreadPool" where
  "join_each [] p = Inr p"
| "join_each (i # rest) p =
     (if joinable (threads p ! i)
      then (case join_thread i p of
              Inl e \<Rightarrow> Inl e
            | Inr p' \<Rightarrow> join_each rest p')
      else join_each rest p)"

definition JoinThreads_destroy :: "('e, 'r) ThreadPool \<Rightarrow> abort + ('e, 'r) ThreadPool" where
  "JoinThreads_destroy p = join_each [0..<length (threads p)] p"

text \<open>
  The loop of the constructor, \<open>threads.push_back(std::thread(&ThreadPool::worker_thread,this))\<close>
  for each index: \<open>can_start i\<close> says whether the system starts the \<open>i\<close>-th thread; when it
  does not, \<open>std::thread\<close> throws and the loop is left with \<open>Inl\<close> of the object so far.
\<close>

fun spawn_workers ::
  "nat list \<Rightarrow> (nat \<Rightarrow> bool) \<Rightarrow> ('e, 'r) ThreadPool \<Rightarrow> ('e, 'r) ThreadPool + ('e, 'r) ThreadPool" where
  "spawn_workers [] can_start p = Inr p"
| "spawn_workers (i # rest) can_start p =
     (if can_start i
      then spawn_workers rest can_start
             (p\<lparr>threads := threads p @ [\<lparr>joinable = True\<rparr>], events := events p @ [Spawned i]\<rparr>)
      else Inl p)"

text \<open>
  The outcomes of constructing a pool: the pool; the exception of the failed thread creation,
  with the members as they were when they were destroyed; or no return at all.
\<close>

datatype ('e, 'r) construction =
  Pool "('e, 'r) ThreadPool"
| ThreadCreationFailed "('e, 'r) ThreadPool"
| Aborted abort

text \<open>
  \<open>ThreadPool(): done(false), joiner(threads)\<close>, with \<open>hardware_concurrency\<close> the result of
  \<open>std::thread::hardware_concurrency()\<close>. In the handler, \<open>done=true; throw;\<close>: the exception
  leaves the constructor, which destroys the members built so far, \<open>joiner\<close> first; the
  members carried by \<open>ThreadCreationFailed\<close> are as \<open>~JoinThreads\<close> leaves them. No task
  can have been submitted yet, so a worker in the middle of a pass finds the queue empty
  and comes back to the head of its loop with nothing changed.
\<close>

definition ThreadPool_init :: "nat \<Rightarrow> (nat \<Rightarrow> bool) \<Rightarrow> ('e, 'r) construction" where
  "ThreadPool_init hardware_concurrency can_start =
     (let p0 = \<lparr>done_flag = False, work_queue = ThreadsafeQueue_init, threads = [],
                shared_states = Map.empty, next_promise = 0, events = []\<rparr>;
          thread_count = hardware_concurrency
      in (case spawn_workers [0..<thread_count] can_start p0 of
            Inr p \<Rightarrow> Pool p
          | Inl p \<Rightarrow>
              (case JoinThreads_destroy (p\<lparr>done_flag := True, events := events p @ [ShutdownSet]\<rparr>) of
                 Inl e \<Rightarrow> Aborted e
               | Inr p' \<Rightarrow> ThreadCreationFailed p')))"

text \<open>
  When the destructor writes \<open>done=true\<close>, a worker is either at the head of its loop or
  in the middle of a pass: it has read \<open>done\<close> as \<open>false\<close> and has still to pop, or to
  finish the task it popped. Such a worker finishes its pass before it reads the flag again.
  The first argument lists the workers in the middle of a pass, in the order in which they
  reach the queue; an index that is no running worker of the pool stands for nothing.
\<close>

fun finish_passes :: "nat list \<Rightarrow> ('e, 'r) ThreadPool \<Rightarrow> abort + ('e, 'r) ThreadPool" where
  "finish_passes [] p = Inr p"
| "finish_passes (i # rest) p =
     (if i < length (threads p) \<and> joinable (threads p ! i)
      then (case worker_iteration p of
              Inl e \<Rightarrow> Inl e
            | Inr p' \<Rightarrow> finish_passes rest p')
      else finish_passes rest p)"

text \<open>
  \<open>~ThreadPool() { done=true; }\<close>, then the members in the reverse order of their
  declaration. \<open>~JoinThreads\<close> joins the workers, which return once the passes they were in
  are finished. \<open>~vector<thread>\<close> calls \<open>std::terminate\<close> on a thread still joinable.
  \<open>~ThreadsafeQueue\<close> destroys the tasks still queued, without invoking them. What is
  left when the pool is gone are the shared states, which the futures keep alive, and the
  history.
\<close>

definition ThreadPool_destroy ::
  "nat list \<Rightarrow> ('e, 'r) ThreadPool \<Rightarrow> abort + ((nat \<rightharpoonup> ('e, 'r) shared_state) \<times> event list)" where
  "ThreadPool_destroy in_pass p =
     (case finish_passes in_pass (p\<lparr>done_flag := True, events := events p @ [ShutdownSet]\<rparr>) of
        Inl e \<Rightarrow> Inl e
      | Inr p1 \<Rightarrow>
          (case JoinThreads_destroy p1 of
             Inl e \<Rightarrow> Inl e
           | Inr p2 \<Rightarrow>
               (if list_ex joinable (threads p2) then Inl Terminate
                else (case ThreadsafeQueue_destroy (work_queue p2) of
                        Inl e \<Rightarrow> Inl e
                      | Inr tasks \<Rightarrow>
                          Inr (fold (FunctionWrapper_destroy abandon) tasks (shared_states p2),
                               events p2)))))"

text \<open>A system that starts every thread it is asked for.\<close>

definition every_thread_starts :: "nat \<Rightarrow> bool" where
  "every_thread_starts i = True"

text \<open>An invocation recorded in the history is of a task whose future has been handed out.\<close>

fun handed_out :: "nat \<Rightarrow> event \<Rightarrow> bool" where
  "handed_out n (Invoked s) = (s < n)"
| "handed_out n e = True"

text \<open>
  The invariant of a pool whose queue holds the tasks \<open>ts\<close>, oldest first: each is wrapped
  in a non-empty \<open>FunctionWrapper\<close>, has a shared state of its own, handed out by
  \<open>submit\<close>, that is not ready, and has not been invoked.
\<close>

definition pool_holds :: "('e, 'r) ThreadPool \<Rightarrow> ('e, 'r) packaged_task list \<Rightarrow> bool" where
  "pool_holds p ts =
     (holds (work_queue p) (map FunctionWrapper_from ts) \<and>
      distinct (map promise ts) \<and>
      list_all (\<lambda>t. promise t < next_promise p \<and>
                    shared_states p (promise t) = Some NotReady \<and>
                    Invoked (promise t) \<notin> set (events p)) ts \<and>
      list_all (handed_out (next_promise p)) (events p))"

subsection \<open>A pool with one task queued\<close>

text \<open>
  A callable that returns 7, and the pool that \<open>submit\<close> leaves when it is handed that
  callable right after construction: the task sits in the first node of the queue and its
  shared state is not ready. The arguments are the threads and the history of the pool.
\<close>

definition returns_seven :: "(string, nat) callable" where
  "returns_seven u = Inr 7"

definition pool_with_task :: "thread list \<Rightarrow> event list \<Rightarrow> (string, nat) ThreadPool" where
  "pool_with_task ths evs =
     \<lparr>done_flag = False,
      work_queue =
        \<lparr>heap = [0 \<mapsto> \<lparr>data = Some (FunctionWrapper_from \<lparr>callable = returns_seven, promise = 0\<rparr>),
                        next_node = Some 1\<rparr>,
                 1 \<mapsto> \<lparr>data = None, next_node = None\<rparr>],
         next_free = 2, head = Some 0, tail = 1\<rparr>,
      threads = ths, shared_states = [0 \<mapsto> NotReady], next_promise = 1, events = evs\<rparr>"

text \<open>
  The states a pool passes through: constructed, then any number of submissions, passes of
  a worker through its loop body, and at any moment the flag set.
\<close>

inductive reachable :: "('e, 'r) ThreadPool \<Rightarrow> bool" where
  constructed: "ThreadPool_init n can_start = Pool p \<Longrightarrow> reachable p"
| submitted: "reachable p \<Longrightarrow> submit f p = Inr (fut, p') \<Longrightarrow> reachable p'"
| worked: "reachable p \<Longrightarrow> worker_iteration p = Inr p' \<Longrightarrow> reachable p'"
| shut_down: "reachable p \<Longrightarrow> reachable (p\<lparr>done_flag := True\<rparr>)"

section \<open>Properties of the queue\<close>

subsection \<open>The invariant is established and kept\<close>

lemma chain_heap_upd:
  "a \<notin> fst ` set xs \<Longrightarrow> chain (hp(a := y)) b xs t = chain hp b xs t"
  by (induction xs arbitrary: b) (auto split: option.splits)

lemma chain_snoc:
  "chain hp a xs t \<Longrightarrow> hp t = Some n \<Longrightarrow> data n = Some v \<Longrightarrow> next_node n = Some p \<Longrightarrow>
   chain hp a (xs @ [(t, v)]) p"
  by (induction xs arbitrary: a) (auto split: option.splits)

lemma path_chain: "path n hp a t = Some xs \<Longrightarrow> chain hp a xs t"
  by (induction n arbitrary: a xs) (auto split: if_splits option.splits)

lemma chain_path:
  "chain hp a xs t \<Longrightarrow> t \<notin> fst ` set xs \<Longrightarrow> length xs \<le> n \<Longrightarrow> path n hp a t = Some xs"
proof (induction n arbitrary: a xs)
  case 0
  then show ?case by simp
next
  case (Suc n)
  show ?case
  proof (cases xs)
    case Nil
    with Suc.prems show ?thesis by simp
  next
    case (Cons x xs')
    with Suc.prems obtain nd b where nd: "fst x = a" "hp a = Some nd" "data nd = Some (snd x)"
      "next_node nd = Some b" "chain hp b xs' t"
      by (auto split: option.splits)
    from Suc.prems Cons have "a \<noteq> t" "t \<notin> fst ` set xs'" "length xs' \<le> n"
      using nd(1) by auto
    with Suc.IH[OF nd(5)] nd Cons show ?thesis by (cases x) simp
  qed
qed

lemma distinct_below_length:
  "distinct (as :: nat list) \<Longrightarrow> list_all (\<lambda>a. a < n) as \<Longrightarrow> length as \<le> n"
proof -
  assume d: "distinct as" and b: "list_all (\<lambda>a. a < n) as"
  from b have "set as \<subseteq> {..<n}" by (auto simp: list_all_iff)
  then have "card (set as) \<le> card {..<n}" by (intro card_mono) auto
  with d show ?thesis by (simp add: distinct_card)
qed

lemma holds_iff: "holds q vs = (\<exists>xs. queue_chain q xs \<and> map snd xs = vs)"
proof
  assume "holds q vs"
  then show "\<exists>xs. queue_chain q xs \<and> map snd xs = vs"
    by (auto simp: holds_def split: option.splits)
next
  assume "\<exists>xs. queue_chain q xs \<and> map snd xs = vs"
  then obtain xs where xs: "queue_chain q xs" "map snd xs = vs" by blast
  then obtain h where h: "head q = Some h" "chain (heap q) h xs (tail q)"
    by (auto simp: queue_chain_def split: option.splits)
  from xs(1) have d: "distinct (map fst xs @ [tail q])"
    and b: "list_all (\<lambda>a. a < next_free q) (map fst xs @ [tail q])"
    by (simp_all add: queue_chain_def)
  from distinct_below_length[OF d b] have "length xs \<le> next_free q" by simp
  moreover from d have "tail q \<notin> fst ` set xs" by auto
  ultimately have "path (next_free q) (heap q) h (tail q) = Some xs"
    using chain_path[OF h(2)] by blast
  with h(1) xs show "holds q vs" by (simp add: holds_def)
qed

lemma queue_chain_init: "queue_chain ThreadsafeQueue_init []"
  by (simp add: queue_chain_def ThreadsafeQueue_init_def)

lemma queue_chain_empty: "queue_chain q xs \<Longrightarrow> empty_queue q = (xs = [])"
  by (cases xs) (auto simp: queue_chain_def empty_queue_def get_tail_def split: option.splits)

lemma queue_chain_push:
  assumes "queue_chain q xs"
  shows "\<exists>q'. push v q = Inr q' \<and> queue_chain q' (xs @ [(tail q, v)])"
proof -
  let ?p = "next_free q"
  let ?t = "tail q"
  let ?e = "\<lparr>data = None, next_node = None\<rparr> :: 'a node"
  let ?hp = "(heap q)(?p \<mapsto> ?e, ?t \<mapsto> \<lparr>data = Some v, next_node = Some ?p\<rparr>)"
  let ?q' = "q\<lparr>heap := ?hp, next_free := Suc ?p, tail := ?p\<rparr>"
  from assms obtain h where h: "head q = Some h" "chain (heap q) h xs ?t"
    and dist: "distinct (map fst xs @ [?t])"
    and sent: "heap q ?t = Some ?e"
    and below: "list_all (\<lambda>a. a < ?p) (map fst xs @ [?t])"
    by (auto simp: queue_chain_def split: option.splits)
  have tp: "?t \<noteq> ?p" using below by auto
  have pnot: "?p \<notin> fst ` set xs"
    using below by (auto simp: list_all_iff)
  have tnot: "?t \<notin> fst ` set xs" using dist by auto
  have push: "push v q = Inr ?q'"
    using sent tp by (simp add: push_def new_node_def Let_def)
  have "chain ?hp h xs ?t"
    using h(2) pnot tnot by (simp add: chain_heap_upd)
  then have c: "chain ?hp h (xs @ [(?t, v)]) ?p"
    by (rule chain_snoc) (use tp in auto)
  have below': "list_all (\<lambda>a. a < Suc ?p) (map fst (xs @ [(?t, v)]) @ [?p])"
    using below by (auto simp: list_all_iff less_Suc_eq)
  have "queue_chain ?q' (xs @ [(?t, v)])"
    using c h(1) dist pnot tp below' by (auto simp: queue_chain_def)
  with push show ?thesis by blast
qed

lemma queue_chain_pop_head:
  assumes "queue_chain q (x # xs)"
  shows "\<exists>q'. pop_head q = Inr (\<lparr>data = Some (snd x), next_node = None\<rparr>, q') \<and>
              queue_chain q' xs \<and> move_head_data q = Inr (snd x)"
  using assms
  by (auto simp: queue_chain_def pop_head_def move_head_data_def chain_heap_upd
      split: option.splits)


lemma holds_init: "holds ThreadsafeQueue_init []"
  unfolding holds_iff using queue_chain_init by fastforce

lemma holds_empty: "holds q vs \<Longrightarrow> empty_queue q = (vs = [])"
  unfolding holds_iff using queue_chain_empty by fastforce

lemma holds_push: "holds q vs \<Longrightarrow> \<exists>q'. push v q = Inr q' \<and> holds q' (vs @ [v])"
proof -
  assume "holds q vs"
  then obtain xs where xs: "queue_chain q xs" "map snd xs = vs"
    by (auto simp: holds_iff)
  from queue_chain_push[OF xs(1), of v] obtain q'
    where "push v q = Inr q'" "queue_chain q' (xs @ [(tail q, v)])" by blast
  with xs(2) show ?thesis unfolding holds_iff by fastforce
qed

lemma holds_pop_head:
  assumes "holds q (v # vs)"
  shows "\<exists>q'. pop_head q = Inr (\<lparr>data = Some v, next_node = None\<rparr>, q') \<and> holds q' vs \<and>
              move_head_data q = Inr v"
proof -
  from assms obtain x xs where xs: "queue_chain q (x # xs)" "snd x = v" "map snd xs = vs"
    by (auto simp: holds_iff)
  from queue_chain_pop_head[OF xs(1)] xs(2,3) show ?thesis
    unfolding holds_iff by auto
qed

lemma try_pop_head_empty: "empty_queue q \<Longrightarrow> try_pop_head q = Inr (None, q)"
  by (simp add: try_pop_head_def empty_queue_def)

lemma try_pop_head_value_empty: "empty_queue q \<Longrightarrow> try_pop_head_value d q = Inr (None, d, q)"
  by (simp add: try_pop_head_value_def empty_queue_def)

lemma try_pop_empty: "empty_queue q \<Longrightarrow> try_pop q = Inr (None, q)"
  by (simp add: try_pop_def try_pop_head_empty)

lemma try_pop_value_empty: "empty_queue q \<Longrightarrow> try_pop_value d q = Inr (False, d, q)"
  by (simp add: try_pop_value_def try_pop_head_value_empty)

lemma holds_try_pop:
  assumes "holds q (v # vs)"
  shows "\<exists>q'. try_pop q = Inr (Some v, q') \<and> holds q' vs"
proof -
  have ne: "head q \<noteq> Some (get_tail q)"
    using holds_empty[OF assms] by (simp add: empty_queue_def)
  from holds_pop_head[OF assms] ne show ?thesis
    by (auto simp: try_pop_def try_pop_head_def)
qed

lemma holds_try_pop_value:
  assumes "holds q (v # vs)"
  shows "\<exists>q'. try_pop_value d q = Inr (True, v, q') \<and> holds q' vs"
proof -
  have ne: "head q \<noteq> Some (get_tail q)"
    using holds_empty[OF assms] by (simp add: empty_queue_def)
  from holds_pop_head[OF assms] ne show ?thesis
    by (auto simp: try_pop_value_def try_pop_head_value_def)
qed

lemma holds_push_all: "holds q vs \<Longrightarrow> \<exists>q'. push_all ws q = Inr q' \<and> holds q' (vs @ ws)"
proof (induction ws arbitrary: q vs)
  case Nil
  then show ?case by simp
next
  case (Cons w ws)
  from holds_push[OF Cons.prems, of w] obtain q1
    where q1: "push w q = Inr q1" "holds q1 (vs @ [w])" by blast
  from Cons.IH[OF q1(2)] q1(1) show ?case by simp
qed

lemma holds_try_pop_past_end:
  "holds q vs \<Longrightarrow>
   \<exists>q'. try_pop_n (Suc (length vs)) q = Inr (map Some vs @ [None], q') \<and> empty_queue q'"
proof (induction vs arbitrary: q)
  case Nil
  then have "empty_queue q" by (simp add: holds_empty)
  then show ?case by (simp add: try_pop_empty)
next
  case (Cons v vs)
  from holds_try_pop[OF Cons.prems] obtain q1
    where q1: "try_pop q = Inr (Some v, q1)" "holds q1 vs" by blast
  from Cons.IH[OF q1(2)] q1(1) show ?case by auto
qed

lemma holds_try_pop_value_past_end:
  "holds q vs \<Longrightarrow>
   \<exists>q'. try_pop_value_n (Suc (length vs)) d q =
          Inr (map (Pair True) vs @ [(False, last (d # vs))], last (d # vs), q') \<and>
        empty_queue q'"
proof (induction vs arbitrary: q d)
  case Nil
  then have "empty_queue q" by (simp add: holds_empty)
  then show ?case by (simp add: try_pop_value_empty)
next
  case (Cons v vs)
  from holds_try_pop_value[OF Cons.prems, of d] obtain q1
    where q1: "try_pop_value d q = Inr (True, v, q1)" "holds q1 vs" by blast
  from Cons.IH[OF q1(2), of v] q1(1) show ?case by auto
qed

lemma holds_wait_and_pop:
  assumes "holds q (v # vs)"
  shows "\<exists>q'. wait_and_pop q = Inr (Some v, q') \<and> holds q' vs"
proof -
  have ne: "head q \<noteq> Some (get_tail q)"
    using holds_empty[OF assms] by (simp add: empty_queue_def)
  from holds_pop_head[OF assms] ne show ?thesis
    by (auto simp: wait_and_pop_def wait_pop_head_def wait_for_data_def)
qed

lemma holds_wait_and_pop_value:
  assumes "holds q (v # vs)"
  shows "\<exists>q'. wait_and_pop_value d q = Inr (v, q') \<and> holds q' vs"
proof -
  have ne: "head q \<noteq> Some (get_tail q)"
    using holds_empty[OF assms] by (simp add: empty_queue_def)
  from holds_pop_head[OF assms] ne show ?thesis
    by (auto simp: wait_and_pop_value_def wait_pop_head_value_def wait_for_data_def)
qed

lemma wait_and_pop_nonempty: "\<not> empty_queue q \<Longrightarrow> wait_and_pop q = try_pop q"
  by (auto simp: empty_queue_def wait_and_pop_def wait_pop_head_def wait_for_data_def
      try_pop_def try_pop_head_def split: sum.splits)

lemma wait_and_pop_value_nonempty:
  "\<not> empty_queue q \<Longrightarrow>
   try_pop_value d q = map_sum id (\<lambda>(v, q'). (True, v, q')) (wait_and_pop_value d q)"
  by (auto simp: empty_queue_def wait_and_pop_value_def wait_pop_head_value_def wait_for_data_def
      try_pop_value_def try_pop_head_value_def split: sum.splits)

lemma holds_call_queue:
  "holds q vs \<Longrightarrow> call_queue c q = Inr q' \<Longrightarrow> holds q' (spec_call vs c)"
proof (cases vs)
  case Nil
  assume h: "holds q vs" and c: "call_queue c q = Inr q'"
  have e: "empty_queue q" using h Nil by (simp add: holds_empty)
  show ?thesis
  proof (cases c)
    case (Push v)
    with holds_push[OF h, of v] c show ?thesis by auto
  next
    case TryPop
    with e c h Nil show ?thesis by (simp add: try_pop_empty)
  next
    case (TryPopValue d)
    with e c h Nil show ?thesis by (simp add: try_pop_value_empty)
  next
    case WaitAndPop
    with e c show ?thesis
      by (simp add: wait_and_pop_def wait_pop_head_def wait_for_data_def empty_queue_def)
  next
    case (WaitAndPopValue d)
    with e c show ?thesis
      by (simp add: wait_and_pop_value_def wait_pop_head_value_def wait_for_data_def
          empty_queue_def)
  next
    case Empty
    with c h show ?thesis by simp
  qed
next
  case (Cons v ws)
  assume h: "holds q vs" and c: "call_queue c q = Inr q'"
  have h': "holds q (v # ws)" using h Cons by simp
  show ?thesis
  proof (cases c)
    case (Push x)
    with holds_push[OF h, of x] c show ?thesis by auto
  next
    case TryPop
    with holds_try_pop[OF h'] c Cons show ?thesis by auto
  next
    case (TryPopValue d)
    with holds_try_pop_value[OF h', of d] c Cons show ?thesis by auto
  next
    case WaitAndPop
    with holds_wait_and_pop[OF h'] c Cons show ?thesis by auto
  next
    case (WaitAndPopValue d)
    with holds_wait_and_pop_value[OF h', of d] c Cons show ?thesis by auto
  next
    case Empty
    with c h show ?thesis by simp
  qed
qed

lemma holds_calls:
  "holds q vs \<Longrightarrow> calls cs q = Inr q' \<Longrightarrow> holds q' (foldl spec_call vs cs)"
proof (induction cs arbitrary: q vs)
  case Nil
  then show ?case by simp
next
  case (Cons c cs)
  from Cons.prems(2) obtain q1 where q1: "call_queue c q = Inr q1" "calls cs q1 = Inr q'"
    by (auto split: sum.splits)
  from holds_call_queue[OF Cons.prems(1) q1(1)] have "holds q1 (spec_call vs c)" .
  from Cons.IH[OF this q1(2)] show ?case by simp
qed

lemma holds_history:
  "calls cs ThreadsafeQueue_init = Inr q \<Longrightarrow> holds q (spec_contents cs)"
  unfolding spec_contents_def by (rule holds_calls[OF holds_init])

lemma holds_pop_call:
  assumes "holds q (v # vs)" and "is_pop c"
  shows "\<exists>q'. call_queue c q = Inr q' \<and> holds q' vs"
proof (cases c)
  case (Push x)
  with assms(2) show ?thesis by (simp add: is_pop_def)
next
  case TryPop
  with holds_try_pop[OF assms(1)] show ?thesis by auto
next
  case (TryPopValue d)
  with holds_try_pop_value[OF assms(1), of d] show ?thesis by auto
next
  case WaitAndPop
  with holds_wait_and_pop[OF assms(1)] show ?thesis by auto
next
  case (WaitAndPopValue d)
  with holds_wait_and_pop_value[OF assms(1), of d] show ?thesis by auto
next
  case Empty
  with assms(2) show ?thesis by (simp add: is_pop_def)
qed

lemma release_chain:
  "chain hp a xs t \<Longrightarrow> hp t = Some \<lparr>data = None, next_node = None\<rparr> \<Longrightarrow> length xs < n \<Longrightarrow>
   release n hp (Some a) = Inr (rev (map snd xs))"
proof (induction xs arbitrary: a n)
  case Nil
  then obtain n' where "n = Suc n'" by (cases n) auto
  with Nil show ?case by simp
next
  case (Cons x xs)
  then obtain n' where n: "n = Suc n'" "length xs < n'" by (cases n) auto
  from Cons.prems(1) obtain nd b where nd: "hp a = Some nd" "data nd = Some (snd x)"
    "next_node nd = Some b" "chain hp b xs t"
    by (auto split: option.splits)
  from Cons.IH[OF nd(4) Cons.prems(2) n(2)] nd n show ?case by simp
qed

lemma holds_destroy: "holds q vs \<Longrightarrow> ThreadsafeQueue_destroy q = Inr (rev vs)"
proof -
  assume "holds q vs"
  then obtain xs where xs: "queue_chain q xs" "map snd xs = vs" by (auto simp: holds_iff)
  then obtain h where h: "head q = Some h" "chain (heap q) h xs (tail q)"
    by (auto simp: queue_chain_def split: option.splits)
  from xs(1) have d: "distinct (map fst xs @ [tail q])"
    and b: "list_all (\<lambda>a. a < next_free q) (map fst xs @ [tail q])"
    and s: "heap q (tail q) = Some \<lparr>data = None, next_node = None\<rparr>"
    by (simp_all add: queue_chain_def)
  from distinct_below_length[OF d b] have "length xs < next_free q" by simp
  from release_chain[OF h(2) s this] h(1) xs(2) show ?thesis
    by (simp add: ThreadsafeQueue_destroy_def)
qed

subsection \<open>The claims about the queue\<close>

text \<open>
  Claim C1. For every list \<open>vs\<close> of values: pushing them in order onto a freshly constructed
  queue succeeds, and \<open>length vs + 1\<close> calls of \<open>try_pop\<close> by the same thread then return
  the values in that same order followed by "no value" (a null pointer from \<open>try_pop()\<close>,
  \<open>false\<close> with the variable left as it was from \<open>try_pop(value)\<close>); \<open>empty\<close> is then
  true.
\<close>

theorem push_then_try_pop_fifo:
  "\<exists>q1 q2 q3.
     push_all vs ThreadsafeQueue_init = Inr q1 \<and>
     try_pop_n (Suc (length vs)) q1 = Inr (map Some vs @ [None], q2) \<and>
     empty_queue q2 \<and>
     try_pop_value_n (Suc (length vs)) d q1 =
       Inr (map (Pair True) vs @ [(False, last (d # vs))], last (d # vs), q3) \<and>
     empty_queue q3"
proof -
  from holds_push_all[OF holds_init, of vs] obtain q1
    where q1: "push_all vs ThreadsafeQueue_init = Inr q1" "holds q1 vs" by auto
  from holds_try_pop_past_end[OF q1(2)] holds_try_pop_value_past_end[OF q1(2), of d] q1(1)
  show ?thesis by blast
qed

theorem push_then_try_pop_fifo_witness:
  "\<exists>q1 q2 q3. push_all [1, 2, 3 :: nat] ThreadsafeQueue_init = Inr q1 \<and>
           try_pop_n 4 q1 = Inr ([Some 1, Some 2, Some 3, None], q2) \<and> empty_queue q2 \<and>
           try_pop_value_n 4 0 q1 = Inr ([(True, 1), (True, 2), (True, 3), (False, 3)], 3, q3) \<and>
           empty_queue q3"
proof -
  have n: "Suc (length [1, 2, 3 :: nat]) = 4" by simp
  have r: "map Some [1, 2, 3 :: nat] @ [None] = [Some 1, Some 2, Some 3, None]" by simp
  have l: "last [0, 1, 2, 3 :: nat] = 3" by simp
  have v: "map (Pair True) [1, 2, 3 :: nat] @ [(False, 3)] =
             [(True, 1), (True, 2), (True, 3), (False, 3)]" by simp
  from push_then_try_pop_fifo [of "[1, 2, 3 :: nat]" 0] show ?thesis
    unfolding n r l v .
qed

text \<open>
  The same scenario computed from the definitions alone: push 1, 2, 3; four calls of
  \<open>try_pop\<close>; then \<open>empty\<close>.
\<close>

lemma scenario_1_2_3:
  "(case push_all [1, 2, 3 :: nat] ThreadsafeQueue_init of
      Inl e \<Rightarrow> None
    | Inr q \<Rightarrow> (case try_pop_n 4 q of Inl e \<Rightarrow> None | Inr (rs, q') \<Rightarrow> Some (rs, empty_queue q')))
   = Some ([Some 1, Some 2, Some 3, None], True)"
  by (simp add: push_def new_node_def ThreadsafeQueue_init_def numeral_eq_Suc
      try_pop_def try_pop_head_def pop_head_def get_tail_def empty_queue_def)

text \<open>
  Claim C9. On an empty queue (one whose \<open>head\<close> equals \<open>tail\<close>, as every queue that
  holds no value is) \<open>try_pop()\<close> returns a null pointer and \<open>try_pop(value)\<close> returns
  \<open>false\<close> and leaves the variable alone; both return, neither is an error, and the
  queue is left exactly as it was.
\<close>

theorem try_pop_on_empty:
  "(holds q [] \<longrightarrow> empty_queue q) \<and>
   (empty_queue q \<longrightarrow> try_pop q = Inr (None, q) \<and> try_pop_value d q = Inr (False, d, q))"
  by (simp add: holds_empty try_pop_empty try_pop_value_empty)

theorem try_pop_on_empty_witness:
  "empty_queue (ThreadsafeQueue_init :: nat ThreadsafeQueue) \<and>
   try_pop (ThreadsafeQueue_init :: nat ThreadsafeQueue) = Inr (None, ThreadsafeQueue_init) \<and>
   try_pop_value 7 (ThreadsafeQueue_init :: nat ThreadsafeQueue) = Inr (False, 7, ThreadsafeQueue_init)"
  using try_pop_on_empty [of "ThreadsafeQueue_init :: nat ThreadsafeQueue" 7]
  by (simp add: empty_queue_def get_tail_def ThreadsafeQueue_init_def)

text \<open>
  Claim C8. On every queue that is not empty, \<open>wait_and_pop\<close> does not wait and does what
  \<open>try_pop\<close> does: the same result and the same queue afterwards, for the overloads that
  return a pointer and for those that fill a variable. On a well-formed queue holding
  \<open>v # vs\<close> all four extract \<open>v\<close> and leave one and the same queue, which holds \<open>vs\<close>.
\<close>

theorem wait_and_pop_same_extraction:
  "(\<not> empty_queue q \<longrightarrow>
      wait_and_pop q = try_pop q \<and>
      try_pop_value d q = map_sum id (\<lambda>(v, q'). (True, v, q')) (wait_and_pop_value d q)) \<and>
   (holds q (v # vs) \<longrightarrow>
      \<not> empty_queue q \<and>
      (\<exists>q'. holds q' vs \<and>
            try_pop q = Inr (Some v, q') \<and> wait_and_pop q = Inr (Some v, q') \<and>
            try_pop_value d q = Inr (True, v, q') \<and> wait_and_pop_value d q = Inr (v, q')))"
proof (intro conjI impI)
  assume h: "holds q (v # vs)"
  then show ne: "\<not> empty_queue q" by (simp add: holds_empty)
  from holds_try_pop[OF h] obtain q' where q': "try_pop q = Inr (Some v, q')" "holds q' vs"
    by blast
  from holds_try_pop_value[OF h, of d] obtain q2
    where q2: "try_pop_value d q = Inr (True, v, q2)" by blast
  from holds_pop_head[OF h] obtain q3
    where q3: "pop_head q = Inr (\<lparr>data = Some v, next_node = None\<rparr>, q3)" by blast
  have "q2 = q'" using q'(1) q2 q3 ne
    by (auto simp: try_pop_def try_pop_head_def try_pop_value_def try_pop_head_value_def
        empty_queue_def split: sum.splits)
  with q' q2 wait_and_pop_nonempty[OF ne] wait_and_pop_value_nonempty[OF ne, of d]
  show "\<exists>q'. holds q' vs \<and>
            try_pop q = Inr (Some v, q') \<and> wait_and_pop q = Inr (Some v, q') \<and>
            try_pop_value d q = Inr (True, v, q') \<and> wait_and_pop_value d q = Inr (v, q')"
    by (cases "wait_and_pop_value d q") auto
qed (simp_all add: wait_and_pop_nonempty wait_and_pop_value_nonempty)

theorem wait_and_pop_same_extraction_witness:
  "\<exists>q q'. push (5::nat) ThreadsafeQueue_init = Inr q \<and> holds q [5] \<and> \<not> empty_queue q \<and>
          try_pop q = Inr (Some 5, q') \<and> wait_and_pop q = Inr (Some 5, q') \<and>
          try_pop_value 0 q = Inr (True, 5, q') \<and> wait_and_pop_value 0 q = Inr (5, q') \<and>
          holds q' []"
proof -
  from holds_push[OF holds_init, of "5::nat"] obtain q
    where q: "push (5::nat) ThreadsafeQueue_init = Inr q" "holds q [5]" by auto
  from wait_and_pop_same_extraction[of q 0 5 "[]"] q show ?thesis by blast
qed

text \<open>
  Claim C3. After any history of calls on a freshly constructed queue, \<open>head == tail\<close> (what
  \<open>empty\<close> returns) exactly when the queue is logically empty, that is when the FIFO of the
  specification, which the same history builds, holds nothing. So \<open>empty\<close> is true right
  after construction, false right after any push, and true again after the pop, of any of
  the four kinds, that removes the last remaining element.
\<close>

theorem empty_iff_logically_empty:
  "empty_queue (ThreadsafeQueue_init :: 'a ThreadsafeQueue) \<and>
   (calls cs ThreadsafeQueue_init = Inr (q :: 'a ThreadsafeQueue) \<longrightarrow>
      empty_queue q = (spec_contents cs = []) \<and>
      (\<exists>q'. push v q = Inr q' \<and> \<not> empty_queue q') \<and>
      (length (spec_contents cs) = 1 \<and> is_pop c \<longrightarrow>
         (\<exists>q'. call_queue c q = Inr q' \<and> empty_queue q')))"
proof (intro conjI impI)
  show "empty_queue (ThreadsafeQueue_init :: 'a ThreadsafeQueue)"
    using holds_empty[OF holds_init] by simp
next
  assume "calls cs ThreadsafeQueue_init = Inr q"
  then show "empty_queue q = (spec_contents cs = [])"
    by (rule holds_empty[OF holds_history])
next
  assume "calls cs ThreadsafeQueue_init = Inr q"
  then have "holds q (spec_contents cs)" by (rule holds_history)
  from holds_push[OF this, of v] show "\<exists>q'. push v q = Inr q' \<and> \<not> empty_queue q'"
    using holds_empty by fastforce
next
  assume c: "calls cs ThreadsafeQueue_init = Inr q"
    and l: "length (spec_contents cs) = 1 \<and> is_pop c"
  from l obtain x where "spec_contents cs = [x]"
    by (cases "spec_contents cs") auto
  with holds_history[OF c] have "holds q [x]" by simp
  from holds_pop_call[OF this] l show "\<exists>q'. call_queue c q = Inr q' \<and> empty_queue q'"
    using holds_empty by fastforce
qed




theorem empty_iff_logically_empty_witness:
  "\<exists>q. calls [Push (1::nat), Empty] ThreadsafeQueue_init = Inr q \<and>
       spec_contents [Push (1::nat), Empty] = [1] \<and> \<not> empty_queue q \<and>
       (\<exists>q'. push 2 q = Inr q' \<and> \<not> empty_queue q') \<and>
       (\<exists>q'. call_queue TryPop q = Inr q' \<and> empty_queue q')"
proof -
  obtain q where q: "calls [Push (1::nat), Empty] ThreadsafeQueue_init = Inr q"
    by (simp add: push_def new_node_def ThreadsafeQueue_init_def)
  have s: "spec_contents [Push (1::nat), Empty] = [1]"
    by (simp add: spec_contents_def)
  have p: "is_pop (TryPop :: nat call)" by (simp add: is_pop_def)
  from empty_iff_logically_empty[of "[Push (1::nat), Empty]" q 2 TryPop] q s p
  show ?thesis by simp
qed

section \<open>Properties of the pool\<close>

lemma spawn_workers_Inr:
  "spawn_workers is can_start p = Inr p' \<Longrightarrow>
   threads p' = threads p @ replicate (length is) \<lparr>joinable = True\<rparr> \<and>
   events p' = events p @ map Spawned is \<and>
   done_flag p' = done_flag p \<and> work_queue p' = work_queue p \<and>
   shared_states p' = shared_states p \<and> next_promise p' = next_promise p"
proof (induction "is" arbitrary: p)
  case Nil
  then show ?case by simp
next
  case (Cons i rest)
  then show ?case
    by (auto split: if_splits simp: replicate_app_Cons_same)
qed

lemma spawn_workers_all:
  "(\<forall>i\<in>set is. can_start i) \<Longrightarrow> \<exists>p'. spawn_workers is can_start p = Inr p'"
  by (induction "is" arbitrary: p) auto

lemma spawn_workers_fails:
  "(\<forall>i\<in>set pre. can_start i) \<Longrightarrow> \<not> can_start k \<Longrightarrow>
   spawn_workers (pre @ k # post) can_start p =
     Inl (p\<lparr>threads := threads p @ replicate (length pre) \<lparr>joinable = True\<rparr>,
            events := events p @ map Spawned pre\<rparr>)"
proof (induction pre arbitrary: p)
  case Nil
  then show ?case by simp
next
  case (Cons i pre)
  then show ?case by (simp add: replicate_app_Cons_same)
qed

lemma worker_thread_done: "done_flag p \<Longrightarrow> worker_thread schedule p = Inr p"
  by (cases schedule) auto

lemma join_thread_done:
  "done_flag p \<Longrightarrow>
   join_thread i p = Inr (p\<lparr>threads := (threads p)[i := \<lparr>joinable = False\<rparr>],
                             events := events p @ [Joined i]\<rparr>)"
  by (simp add: join_thread_def)

lemma join_each_done:
  "done_flag p \<Longrightarrow> distinct is \<Longrightarrow>
   \<exists>p'. join_each is p = Inr p' \<and> done_flag p' \<and>
        length (threads p') = length (threads p) \<and>
        (\<forall>j<length (threads p). joinable (threads p' ! j) = (joinable (threads p ! j) \<and> j \<notin> set is)) \<and>
        events p' = events p @ map Joined (filter (\<lambda>i. joinable (threads p ! i)) is) \<and>
        work_queue p' = work_queue p \<and> shared_states p' = shared_states p \<and>
        next_promise p' = next_promise p"
proof (induction "is" arbitrary: p)
  case Nil
  then show ?case by simp
next
  case (Cons i rest)
  show ?case
  proof (cases "joinable (threads p ! i)")
    case False
    with Cons.IH[of p] Cons.prems show ?thesis by auto
  next
    case True
    let ?p1 = "p\<lparr>threads := (threads p)[i := \<lparr>joinable = False\<rparr>], events := events p @ [Joined i]\<rparr>"
    have j: "join_thread i p = Inr ?p1" using Cons.prems(1) by (rule join_thread_done)
    have same: "filter (\<lambda>j. joinable (threads ?p1 ! j)) rest = filter (\<lambda>j. joinable (threads p ! j)) rest"
    proof (rule filter_cong)
      fix x assume "x \<in> set rest"
      with Cons.prems(2) have "i \<noteq> x" by auto
      then show "joinable (threads ?p1 ! x) = joinable (threads p ! x)" by simp
    qed simp
    from Cons.IH[of ?p1] Cons.prems obtain p' where p':
      "join_each rest ?p1 = Inr p'" "done_flag p'"
      "length (threads p') = length (threads ?p1)"
      "\<forall>j<length (threads ?p1). joinable (threads p' ! j) = (joinable (threads ?p1 ! j) \<and> j \<notin> set rest)"
      "events p' = events ?p1 @ map Joined (filter (\<lambda>i. joinable (threads ?p1 ! i)) rest)"
      "work_queue p' = work_queue ?p1" "shared_states p' = shared_states ?p1"
      "next_promise p' = next_promise ?p1"
      by auto
    have "\<forall>j<length (threads p). joinable (threads p' ! j) = (joinable (threads p ! j) \<and> j \<notin> set (i # rest))"
    proof (intro allI impI)
      fix j assume jl: "j < length (threads p)"
      show "joinable (threads p' ! j) = (joinable (threads p ! j) \<and> j \<notin> set (i # rest))"
      proof (cases "j = i")
        case True
        with jl p'(4) show ?thesis by simp
      next
        case False
        with jl p'(4) show ?thesis by simp
      qed
    qed
    with p' j True same show ?thesis by auto
  qed
qed


lemma handed_out_all:
  "list_all (handed_out n) es = (\<forall>s. Invoked s \<in> set es \<longrightarrow> s < n)"
proof (induction es)
  case Nil
  then show ?case by simp
next
  case (Cons e es)
  then show ?case by (cases e) auto
qed

lemma pool_holds_iff:
  "pool_holds p ts =
     (holds (work_queue p) (map FunctionWrapper_from ts) \<and>
      distinct (map promise ts) \<and>
      (\<forall>t\<in>set ts. promise t < next_promise p \<and>
                   shared_states p (promise t) = Some NotReady \<and>
                   Invoked (promise t) \<notin> set (events p)) \<and>
      (\<forall>s. Invoked s \<in> set (events p) \<longrightarrow> s < next_promise p))"
  unfolding pool_holds_def handed_out_all by (simp add: list_all_iff)

lemma pool_holds_init:
  assumes "ThreadPool_init n can_start = Pool p"
  shows "pool_holds p [] \<and> \<not> done_flag p \<and>
         threads p = replicate n \<lparr>joinable = True\<rparr> \<and> events p = map Spawned [0..<n]"
proof -
  let ?p0 = "\<lparr>done_flag = False, work_queue = ThreadsafeQueue_init, threads = [],
              shared_states = Map.empty, next_promise = 0, events = []\<rparr> :: ('a, 'b) ThreadPool"
  from assms have "spawn_workers [0..<n] can_start ?p0 = Inr p"
    by (simp add: ThreadPool_init_def split: sum.splits)
  from spawn_workers_Inr[OF this] show ?thesis
    by (auto simp: pool_holds_iff holds_init)
qed

lemma pool_holds_submit:
  assumes "pool_holds p ts"
  shows "\<exists>p'. submit f p = Inr (next_promise p, p') \<and>
              pool_holds p' (ts @ [\<lparr>callable = f, promise = next_promise p\<rparr>]) \<and>
              shared_states p' = (shared_states p)(next_promise p \<mapsto> NotReady) \<and>
              next_promise p' = Suc (next_promise p) \<and>
              done_flag p' = done_flag p \<and> threads p' = threads p \<and> events p' = events p"
proof -
  let ?t = "\<lparr>callable = f, promise = next_promise p\<rparr>"
  from assms have h: "holds (work_queue p) (map FunctionWrapper_from ts)"
    by (simp add: pool_holds_iff)
  from holds_push[OF h, of "FunctionWrapper_from ?t"] obtain q'
    where q': "push (FunctionWrapper_from ?t) (work_queue p) = Inr q'"
      "holds q' (map FunctionWrapper_from (ts @ [?t]))" by auto
  have new: "next_promise p \<notin> promise ` set ts"
    using assms by (auto simp: pool_holds_iff)
  let ?p' = "p\<lparr>shared_states := (shared_states p)(next_promise p \<mapsto> NotReady),
               next_promise := Suc (next_promise p), work_queue := q'\<rparr>"
  have s: "submit f p = Inr (next_promise p, ?p')"
    using q'(1) by (simp add: submit_def Let_def)
  have "pool_holds ?p' (ts @ [?t])"
    using assms q'(2) new by (auto simp: pool_holds_iff less_Suc_eq)
  with s show ?thesis by auto
qed

lemma pool_holds_iteration_idle:
  assumes "pool_holds p []"
  shows "worker_iteration p = Inr p"
proof -
  from assms have "holds (work_queue p) []" by (simp add: pool_holds_iff)
  then have "empty_queue (work_queue p)" by (simp add: holds_empty)
  then show ?thesis by (simp add: worker_iteration_def try_pop_value_empty)
qed

lemma pool_holds_iteration_task:
  assumes "pool_holds p (t # ts)"
  shows "\<exists>p'. worker_iteration p = Inr p' \<and> pool_holds p' ts \<and>
              shared_states p' = (shared_states p)(promise t \<mapsto> Ready (callable t ())) \<and>
              events p' = events p @ [Invoked (promise t)] \<and>
              next_promise p' = next_promise p \<and>
              done_flag p' = done_flag p \<and> threads p' = threads p"
proof -
  from assms have h: "holds (work_queue p) (FunctionWrapper_from t # map FunctionWrapper_from ts)"
    by (simp add: pool_holds_iff)
  from holds_try_pop_value[OF h, of FunctionWrapper_default] obtain q'
    where q': "try_pop_value FunctionWrapper_default (work_queue p) = Inr (True, FunctionWrapper_from t, q')"
      "holds q' (map FunctionWrapper_from ts)" by auto
  have nr: "shared_states p (promise t) = Some NotReady"
    using assms by (simp add: pool_holds_iff)
  let ?p' = "p\<lparr>work_queue := q',
               shared_states := (shared_states p)(promise t \<mapsto> Ready (callable t ())),
               events := events p @ [Invoked (promise t)]\<rparr>"
  have w: "worker_iteration p = Inr ?p'"
    using q'(1) nr
    by (simp add: worker_iteration_def invoke_def FunctionWrapper_from_def run_task_def)
  have lt: "promise t < next_promise p"
    using assms by (simp add: pool_holds_iff)
  have d: "promise t \<notin> promise ` set ts"
    using assms by (simp add: pool_holds_iff)
  have a: "distinct (map promise ts)"
    and b: "\<forall>u\<in>set ts. promise u < next_promise p \<and>
                        shared_states p (promise u) = Some NotReady \<and>
                        Invoked (promise u) \<notin> set (events p)"
    and c: "\<forall>s. Invoked s \<in> set (events p) \<longrightarrow> s < next_promise p"
    using assms by (simp_all add: pool_holds_iff)
  have b': "\<forall>u\<in>set ts. promise u < next_promise ?p' \<and>
                         shared_states ?p' (promise u) = Some NotReady \<and>
                         Invoked (promise u) \<notin> set (events ?p')"
  proof
    fix u assume u: "u \<in> set ts"
    then have "promise u \<noteq> promise t" using d by (metis imageI)
    with b u show "promise u < next_promise ?p' \<and>
                   shared_states ?p' (promise u) = Some NotReady \<and>
                   Invoked (promise u) \<notin> set (events ?p')" by simp
  qed
  have c': "\<forall>s. Invoked s \<in> set (events ?p') \<longrightarrow> s < next_promise ?p'"
    using c lt by auto
  have q'': "holds (work_queue ?p') (map FunctionWrapper_from ts)"
    using q'(2) by simp
  have "pool_holds ?p' ts"
    unfolding pool_holds_iff using q'' a b' c' by blast
  with w show ?thesis by auto
qed

lemma pool_holds_iteration:
  assumes "pool_holds p ts"
  shows "\<exists>p'. worker_iteration p = Inr p' \<and> pool_holds p' (tl ts) \<and>
              done_flag p' = done_flag p \<and> threads p' = threads p"
proof (cases ts)
  case Nil
  with assms pool_holds_iteration_idle[of p] show ?thesis by simp
next
  case (Cons t ts')
  with assms pool_holds_iteration_task[of p t ts'] show ?thesis by auto
qed

lemma pool_holds_passes:
  "pool_holds p ts \<Longrightarrow> \<not> done_flag p \<Longrightarrow>
   \<exists>p'. worker_passes n p = Inr p' \<and> pool_holds p' (drop n ts) \<and> \<not> done_flag p' \<and>
        events p' = events p @ map (\<lambda>t. Invoked (promise t)) (take n ts) \<and>
        (\<forall>t\<in>set (take n ts). shared_states p' (promise t) = Some (Ready (callable t ()))) \<and>
        (\<forall>s. s \<notin> promise ` set (take n ts) \<longrightarrow> shared_states p' s = shared_states p s) \<and>
        next_promise p' = next_promise p \<and> threads p' = threads p"
proof (induction n arbitrary: p ts)
  case 0
  then show ?case by simp
next
  case (Suc n)
  show ?case
  proof (cases ts)
    case Nil
    with Suc.prems have i: "worker_iteration p = Inr p"
      using pool_holds_iteration_idle by blast
    from Suc.IH[of p "[]"] Suc.prems Nil i show ?thesis by auto
  next
    case (Cons t ts')
    with Suc.prems have ph: "pool_holds p (t # ts')" by simp
    from pool_holds_iteration_task[OF ph] obtain p1 where p1:
      "worker_iteration p = Inr p1" "pool_holds p1 ts'"
      "shared_states p1 = (shared_states p)(promise t \<mapsto> Ready (callable t ()))"
      "events p1 = events p @ [Invoked (promise t)]"
      "next_promise p1 = next_promise p" "done_flag p1 = done_flag p" "threads p1 = threads p"
      by blast
    from Suc.IH[OF p1(2)] p1(6) Suc.prems(2) obtain p' where p':
      "worker_passes n p1 = Inr p'" "pool_holds p' (drop n ts')" "\<not> done_flag p'"
      "events p' = events p1 @ map (\<lambda>t. Invoked (promise t)) (take n ts')"
      "\<forall>t\<in>set (take n ts'). shared_states p' (promise t) = Some (Ready (callable t ()))"
      "\<forall>s. s \<notin> promise ` set (take n ts') \<longrightarrow> shared_states p' s = shared_states p1 s"
      "next_promise p' = next_promise p1" "threads p' = threads p1"
      by blast
    have d: "promise t \<notin> promise ` set (take n ts')"
      using ph by (auto simp: pool_holds_iff dest: in_set_takeD)
    have wp: "worker_passes (Suc n) p = Inr p'"
      using Suc.prems(2) p1(1) p'(1) by simp
    have "shared_states p' (promise t) = Some (Ready (callable t ()))"
      using p'(6) d p1(3) by simp
    with wp p' p1 Cons show ?thesis by auto
  qed
qed

lemma worker_thread_passes:
  "worker_thread (replicate n Quiet @ schedule) p =
     (case worker_passes n p of Inl e \<Rightarrow> Inl e | Inr p' \<Rightarrow> worker_thread schedule p')"
proof (induction n arbitrary: p)
  case 0
  then show ?case by simp
next
  case (Suc n)
  then show ?case by (auto simp: worker_thread_done split: sum.splits)
qed


lemma pool_holds_same:
  assumes "pool_holds p ts"
    and "work_queue p' = work_queue p" and "shared_states p' = shared_states p"
    and "next_promise p' = next_promise p"
    and "\<forall>s. (Invoked s \<in> set (events p')) = (Invoked s \<in> set (events p))"
  shows "pool_holds p' ts"
  using assms unfolding pool_holds_iff by simp

lemma reachable_pool_holds: "reachable p \<Longrightarrow> \<exists>ts. pool_holds p ts"
proof (induction rule: reachable.induct)
  case (constructed n can_start p)
  then show ?case using pool_holds_init by blast
next
  case (submitted p f fut p')
  then obtain ts where "pool_holds p ts" by blast
  from pool_holds_submit[OF this, of f] submitted.hyps(2) show ?case by auto
next
  case (worked p p')
  then obtain ts where "pool_holds p ts" by blast
  from pool_holds_iteration[OF this] worked.hyps(2) show ?case by auto
next
  case (shut_down p)
  then obtain ts where "pool_holds p ts" by blast
  then have "pool_holds (p\<lparr>done_flag := True\<rparr>) ts"
    by (rule pool_holds_same) simp_all
  then show ?case by blast
qed



lemma worker_thread_set_meanwhile:
  "worker_thread (replicate k Quiet @ SetsDone # schedule) p =
     (case worker_passes (Suc k) p of Inl e \<Rightarrow> Inl e | Inr p' \<Rightarrow> Inr (p'\<lparr>done_flag := True\<rparr>))"
proof (induction k arbitrary: p)
  case 0
  show ?case
  proof (cases "done_flag p")
    case True
    then have "p\<lparr>done_flag := True\<rparr> = p" by simp
    with True show ?thesis by simp
  next
    case False
    then show ?thesis by (simp add: worker_thread_done split: sum.splits)
  qed
next
  case (Suc k)
  show ?case
  proof (cases "done_flag p")
    case True
    then have "p\<lparr>done_flag := True\<rparr> = p" by simp
    with True show ?thesis by simp
  next
    case False
    show ?thesis
    proof (cases "worker_iteration p")
      case (Inl e)
      with False show ?thesis by simp
    next
      case (Inr p1)
      have "p1\<lparr>done_flag := done_flag p1\<rparr> = p1" by simp
      with False Inr Suc.IH[of p1] show ?thesis by simp
    qed
  qed
qed


lemma one_worker_pool:
  "ThreadPool_init 1 every_thread_starts =
     (Pool \<lparr>done_flag = False, work_queue = ThreadsafeQueue_init, threads = [\<lparr>joinable = True\<rparr>],
            shared_states = Map.empty, next_promise = 0, events = [Spawned 0]\<rparr>
      :: ('e, 'r) construction)"
  by (simp add: ThreadPool_init_def every_thread_starts_def)

lemma submit_to_fresh_pool:
  "submit returns_seven
     \<lparr>done_flag = False, work_queue = ThreadsafeQueue_init, threads = ths,
      shared_states = Map.empty, next_promise = 0, events = evs\<rparr> =
   Inr (0, pool_with_task ths evs)"
  by (auto simp: submit_def push_def new_node_def ThreadsafeQueue_init_def pool_with_task_def
      fun_eq_iff)

lemma abandon_all:
  "distinct (map promise ts) \<Longrightarrow> \<forall>t\<in>set ts. states (promise t) = Some NotReady \<Longrightarrow>
   (\<forall>t\<in>set ts. fold (FunctionWrapper_destroy abandon) (map FunctionWrapper_from ts) states
                   (promise t) = Some BrokenPromise) \<and>
   (\<forall>s. s \<notin> promise ` set ts \<longrightarrow>
        fold (FunctionWrapper_destroy abandon) (map FunctionWrapper_from ts) states s = states s)"
proof (induction ts arbitrary: states)
  case Nil
  then show ?case by simp
next
  case (Cons t ts)
  let ?s1 = "states(promise t \<mapsto> BrokenPromise)"
  have step: "FunctionWrapper_destroy abandon (FunctionWrapper_from t) states = ?s1"
    using Cons.prems(2)
    by (simp add: FunctionWrapper_destroy_def FunctionWrapper_from_def abandon_def)
  have d: "promise t \<notin> promise ` set ts" "distinct (map promise ts)"
    using Cons.prems(1) by auto
  have "\<forall>u\<in>set ts. ?s1 (promise u) = Some NotReady"
    using Cons.prems(2) d(1) by (metis fun_upd_other imageI list.set_intros(2))
  from Cons.IH[OF d(2) this]
  have ih1: "\<forall>u\<in>set ts. fold (FunctionWrapper_destroy abandon) (map FunctionWrapper_from ts) ?s1
                          (promise u) = Some BrokenPromise"
    and ih2: "\<forall>s. s \<notin> promise ` set ts \<longrightarrow>
                 fold (FunctionWrapper_destroy abandon) (map FunctionWrapper_from ts) ?s1 s = ?s1 s"
    by blast+
  have f: "fold (FunctionWrapper_destroy abandon) (map FunctionWrapper_from (t # ts)) states =
           fold (FunctionWrapper_destroy abandon) (map FunctionWrapper_from ts) ?s1"
    using step by simp
  have "fold (FunctionWrapper_destroy abandon) (map FunctionWrapper_from ts) ?s1 (promise t) =
        Some BrokenPromise"
    using ih2 d(1) by simp
  with ih1 ih2 show ?case unfolding f by auto
qed

lemma pool_holds_finish_passes:
  "pool_holds p ts \<Longrightarrow>
   list_all (\<lambda>i. i < length (threads p) \<and> joinable (threads p ! i)) in_pass \<Longrightarrow>
   \<exists>p'. finish_passes in_pass p = Inr p' \<and> pool_holds p' (drop (length in_pass) ts) \<and>
        events p' = events p @ map (\<lambda>t. Invoked (promise t)) (take (length in_pass) ts) \<and>
        (\<forall>t\<in>set (take (length in_pass) ts).
            shared_states p' (promise t) = Some (Ready (callable t ()))) \<and>
        (\<forall>s. s \<notin> promise ` set (take (length in_pass) ts) \<longrightarrow>
             shared_states p' s = shared_states p s) \<and>
        done_flag p' = done_flag p \<and> threads p' = threads p"
proof (induction in_pass arbitrary: p ts)
  case Nil
  then show ?case by simp
next
  case (Cons i rest)
  then have i: "i < length (threads p) \<and> joinable (threads p ! i)" by simp
  show ?case
  proof (cases ts)
    case Nil
    with Cons.prems have it: "worker_iteration p = Inr p"
      using pool_holds_iteration_idle by blast
    from Cons.IH[of p "[]"] Cons.prems Nil it i show ?thesis by auto
  next
    case (Cons t ts')
    with Cons.prems have ph: "pool_holds p (t # ts')" by simp
    from pool_holds_iteration_task[OF ph] obtain p1 where p1:
      "worker_iteration p = Inr p1" "pool_holds p1 ts'"
      "shared_states p1 = (shared_states p)(promise t \<mapsto> Ready (callable t ()))"
      "events p1 = events p @ [Invoked (promise t)]"
      "done_flag p1 = done_flag p" "threads p1 = threads p"
      by blast
    have "list_all (\<lambda>i. i < length (threads p1) \<and> joinable (threads p1 ! i)) rest"
      using Cons.prems(2) p1(6) by simp
    from Cons.IH[OF p1(2) this] obtain p' where p':
      "finish_passes rest p1 = Inr p'" "pool_holds p' (drop (length rest) ts')"
      "events p' = events p1 @ map (\<lambda>t. Invoked (promise t)) (take (length rest) ts')"
      "\<forall>t\<in>set (take (length rest) ts').
          shared_states p' (promise t) = Some (Ready (callable t ()))"
      "\<forall>s. s \<notin> promise ` set (take (length rest) ts') \<longrightarrow>
           shared_states p' s = shared_states p1 s"
      "done_flag p' = done_flag p1" "threads p' = threads p1"
      by blast
    have d: "promise t \<notin> promise ` set (take (length rest) ts')"
      using ph by (auto simp: pool_holds_iff dest: in_set_takeD)
    have fp: "finish_passes (i # rest) p = Inr p'"
      using i p1(1) p'(1) by simp
    have "shared_states p' (promise t) = Some (Ready (callable t ()))"
      using p'(5) d p1(3) by simp
    with fp p' p1 Cons show ?thesis by auto
  qed
qed


lemma finish_passes_no_threads: "threads p = [] \<Longrightarrow> finish_passes in_pass p = Inr p"
  by (induction in_pass) auto

lemma pool_holds_destroy:
  assumes "pool_holds p ts"
    and "list_all (\<lambda>i. i < length (threads p) \<and> joinable (threads p ! i)) in_pass"
  shows "\<exists>states history.
           ThreadPool_destroy in_pass p = Inr (states, history) \<and>
           history = events p @ ShutdownSet #
             map (\<lambda>t. Invoked (promise t)) (take (length in_pass) ts) @
             map Joined (filter (\<lambda>i. joinable (threads p ! i)) [0..<length (threads p)]) \<and>
           (\<forall>t\<in>set (take (length in_pass) ts).
               future_get states (promise t) = Inr (fulfilled (callable t ()))) \<and>
           (\<forall>t\<in>set (drop (length in_pass) ts).
               Invoked (promise t) \<notin> set history \<and>
               future_get states (promise t) = Inr FutureError)"
proof -
  let ?m = "length in_pass"
  let ?p0 = "p\<lparr>done_flag := True, events := events p @ [ShutdownSet]\<rparr>"
  have ph0: "pool_holds ?p0 ts"
    by (rule pool_holds_same[OF assms(1)]) auto
  have v0: "list_all (\<lambda>i. i < length (threads ?p0) \<and> joinable (threads ?p0 ! i)) in_pass"
    using assms(2) by simp
  from pool_holds_finish_passes[OF ph0 v0] obtain p1 where p1:
    "finish_passes in_pass ?p0 = Inr p1" "pool_holds p1 (drop ?m ts)"
    "events p1 = events ?p0 @ map (\<lambda>t. Invoked (promise t)) (take ?m ts)"
    "\<forall>t\<in>set (take ?m ts). shared_states p1 (promise t) = Some (Ready (callable t ()))"
    "done_flag p1 = done_flag ?p0" "threads p1 = threads ?p0"
    by blast
  have d1: "done_flag p1" using p1(5) by simp
  from join_each_done[OF d1, of "[0..<length (threads p1)]"] obtain p2 where p2:
    "join_each [0..<length (threads p1)] p1 = Inr p2"
    "length (threads p2) = length (threads p1)"
    "\<forall>j<length (threads p1). joinable (threads p2 ! j) =
        (joinable (threads p1 ! j) \<and> j \<notin> set [0..<length (threads p1)])"
    "events p2 = events p1 @
        map Joined (filter (\<lambda>i. joinable (threads p1 ! i)) [0..<length (threads p1)])"
    "work_queue p2 = work_queue p1" "shared_states p2 = shared_states p1"
    by auto
  have nj: "\<not> list_ex joinable (threads p2)"
    using p2(2,3) by (auto simp: list_ex_iff in_set_conv_nth)
  let ?rest = "drop ?m ts"
  have q: "holds (work_queue p2) (map FunctionWrapper_from ?rest)"
    using p1(2) p2(5) by (simp add: pool_holds_iff)
  have rel: "ThreadsafeQueue_destroy (work_queue p2) = Inr (map FunctionWrapper_from (rev ?rest))"
    using holds_destroy[OF q] by (simp add: rev_map)
  let ?states = "fold (FunctionWrapper_destroy abandon) (map FunctionWrapper_from (rev ?rest))
                   (shared_states p2)"
  have dist: "distinct (map promise ts)" using assms(1) by (simp add: pool_holds_iff)
  have dr: "distinct (map promise (rev ?rest))"
    using p1(2) by (simp add: pool_holds_iff distinct_rev rev_map[symmetric])
  have nr: "\<forall>t\<in>set (rev ?rest). shared_states p2 (promise t) = Some NotReady"
    using p1(2) p2(6) by (auto simp: pool_holds_iff)
  from abandon_all[OF dr nr]
  have broken: "\<forall>t\<in>set ?rest. ?states (promise t) = Some BrokenPromise"
    and kept: "\<forall>s. s \<notin> promise ` set ?rest \<longrightarrow> ?states s = shared_states p2 s"
    by auto
  let ?history = "events p2"
  have destroy: "ThreadPool_destroy in_pass p = Inr (?states, ?history)"
    using p1(1) p2(1) nj rel
    by (simp add: ThreadPool_destroy_def JoinThreads_destroy_def)
  have hist: "?history = events p @ ShutdownSet #
                map (\<lambda>t. Invoked (promise t)) (take ?m ts) @
                map Joined (filter (\<lambda>i. joinable (threads p ! i)) [0..<length (threads p)])"
    using p2(4) p1(3,6) by simp
  have disj: "promise ` set (take ?m ts) \<inter> promise ` set ?rest = {}"
    using dist by (metis append_take_drop_id distinct_append map_append set_map)
  have ran: "\<forall>t\<in>set (take ?m ts). future_get ?states (promise t) = Inr (fulfilled (callable t ()))"
  proof
    fix t assume t: "t \<in> set (take ?m ts)"
    then have "promise t \<notin> promise ` set ?rest" using disj by blast
    with kept p2(6) p1(4) t show "future_get ?states (promise t) = Inr (fulfilled (callable t ()))"
      by (simp add: future_get_def)
  qed
  have never: "\<forall>t\<in>set ?rest. Invoked (promise t) \<notin> set ?history \<and>
                 future_get ?states (promise t) = Inr FutureError"
  proof
    fix t assume t: "t \<in> set ?rest"
    from p1(2) t have "Invoked (promise t) \<notin> set (events p1)"
      by (simp add: pool_holds_iff)
    then have "Invoked (promise t) \<notin> set ?history" using p2(4) by auto
    with broken t show "Invoked (promise t) \<notin> set ?history \<and>
                        future_get ?states (promise t) = Inr FutureError"
      by (simp add: future_get_def)
  qed
  from destroy hist ran never show ?thesis by blast
qed


lemma run_thread_no_threads: "threads p = [] \<Longrightarrow> run_thread i schedule p = Inr p"
  by (simp add: run_thread_def)



subsection \<open>The claims about the pool\<close>

text \<open>
  Claim C2 as the specification states it fails: with \<open>hardware_concurrency() = 0\<close> the
  loop of the constructor never runs, and the pool is constructed with an empty \<open>threads\<close>,
  not with one worker.
\<close>

theorem zero_hardware_concurrency_no_worker:
  "ThreadPool_init 0 every_thread_starts =
     (Pool \<lparr>done_flag = False, work_queue = ThreadsafeQueue_init, threads = [],
            shared_states = Map.empty, next_promise = 0, events = []\<rparr>
      :: (unit, nat) construction)"
  by (simp add: ThreadPool_init_def)

text \<open>
  Claim C2, as the code has it. The constructor has no fallback: it starts exactly as many
  workers as \<open>std::thread::hardware_concurrency()\<close> returns. When every thread starts a
  pool is constructed, and a constructed pool has exactly that many joinable worker threads:
  none when the query returns zero.
\<close>

theorem workers_as_hardware_concurrency:
  "(\<exists>p. ThreadPool_init n every_thread_starts = (Pool p :: ('e, 'r) construction)) \<and>
   (ThreadPool_init n can_start = Pool (p :: ('e, 'r) ThreadPool) \<longrightarrow>
      threads p = replicate n \<lparr>joinable = True\<rparr> \<and> length (threads p) = n \<and>
      events p = map Spawned [0..<n] \<and> \<not> done_flag p)"
proof (intro conjI impI)
  let ?p0 = "\<lparr>done_flag = False, work_queue = ThreadsafeQueue_init, threads = [],
              shared_states = Map.empty, next_promise = 0, events = []\<rparr> :: ('e, 'r) ThreadPool"
  from spawn_workers_all[of "[0..<n]" every_thread_starts ?p0]
  obtain p' where "spawn_workers [0..<n] every_thread_starts ?p0 = Inr p'"
    by (auto simp: every_thread_starts_def)
  then show "\<exists>p. ThreadPool_init n every_thread_starts = (Pool p :: ('e, 'r) construction)"
    by (simp add: ThreadPool_init_def)
next
  assume a: "ThreadPool_init n can_start = Pool p"
  from pool_holds_init[OF a]
  show "threads p = replicate n \<lparr>joinable = True\<rparr>" "length (threads p) = n"
    "events p = map Spawned [0..<n]" "\<not> done_flag p"
    by simp_all
qed

theorem workers_as_hardware_concurrency_witness:
  "ThreadPool_init 2 every_thread_starts =
     (Pool \<lparr>done_flag = False, work_queue = ThreadsafeQueue_init,
            threads = [\<lparr>joinable = True\<rparr>, \<lparr>joinable = True\<rparr>],
            shared_states = Map.empty, next_promise = 0, events = [Spawned 0, Spawned 1]\<rparr>
      :: (unit, nat) construction) \<and>
   length [\<lparr>joinable = True\<rparr>, \<lparr>joinable = True\<rparr>] = (2::nat)"
proof -
  let ?P = "\<lparr>done_flag = False, work_queue = ThreadsafeQueue_init,
            threads = [\<lparr>joinable = True\<rparr>, \<lparr>joinable = True\<rparr>],
            shared_states = Map.empty, next_promise = 0, events = [Spawned 0, Spawned 1]\<rparr>
            :: (unit, nat) ThreadPool"
  have e: "ThreadPool_init 2 every_thread_starts = Pool ?P"
    by (simp add: ThreadPool_init_def every_thread_starts_def upt_rec numeral_2_eq_2)
  from workers_as_hardware_concurrency[of 2 every_thread_starts ?P] e show ?thesis by simp
qed

text \<open>
  Claim C6. When the \<open>k\<close>-th thread is the first that fails to start, the constructor sets
  the shutdown flag, then joins each of the \<open>k\<close> workers started before, and only then
  does the failure reach the caller: what the caller gets is the exception, never a pool.
  The history shows the order.
\<close>

theorem thread_creation_failure:
  assumes "k < n" and "\<not> can_start k" and "\<forall>i<k. can_start i"
  shows "\<exists>p. ThreadPool_init n can_start = (ThreadCreationFailed p :: ('e, 'r) construction) \<and>
             done_flag p \<and> length (threads p) = k \<and> (\<forall>t\<in>set (threads p). \<not> joinable t) \<and>
             events p = map Spawned [0..<k] @ ShutdownSet # map Joined [0..<k]"
proof -
  let ?p0 = "\<lparr>done_flag = False, work_queue = ThreadsafeQueue_init, threads = [],
              shared_states = Map.empty, next_promise = 0, events = []\<rparr> :: ('e, 'r) ThreadPool"
  let ?p1 = "?p0\<lparr>threads := replicate k \<lparr>joinable = True\<rparr>, events := map Spawned [0..<k]\<rparr>"
  let ?p2 = "?p1\<lparr>done_flag := True, events := events ?p1 @ [ShutdownSet]\<rparr>"
  have split: "[0..<n] = [0..<k] @ k # [Suc k..<n]"
    using assms(1) by (metis less_imp_le_nat upt_add_eq_append upt_conv_Cons le0 le_add_diff_inverse)
  have "spawn_workers ([0..<k] @ k # [Suc k..<n]) can_start ?p0 = Inl ?p1"
    using spawn_workers_fails[of "[0..<k]" can_start k "[Suc k..<n]" ?p0] assms(2,3) by simp
  with split have sp: "spawn_workers [0..<n] can_start ?p0 = Inl ?p1" by simp
  from join_each_done[of ?p2 "[0..<k]"] obtain p' where p':
    "join_each [0..<k] ?p2 = Inr p'" "done_flag p'" "length (threads p') = k"
    "\<forall>j<k. joinable (threads p' ! j) = (joinable (threads ?p2 ! j) \<and> j \<notin> set [0..<k])"
    "events p' = events ?p2 @ map Joined (filter (\<lambda>i. joinable (threads ?p2 ! i)) [0..<k])"
    by auto
  have f: "filter (\<lambda>i. joinable (threads ?p2 ! i)) [0..<k] = [0..<k]"
    by (rule filter_True) simp
  have nj: "\<forall>t\<in>set (threads p'). \<not> joinable t"
    using p'(3,4) by (auto simp: in_set_conv_nth)
  have "ThreadPool_init n can_start = ThreadCreationFailed p'"
    using sp p'(1) by (simp add: ThreadPool_init_def JoinThreads_destroy_def)
  with p'(2,3,5) f nj show ?thesis by simp
qed

theorem thread_creation_failure_witness:
  "\<exists>p. ThreadPool_init 3 (\<lambda>i. i < 2) = (ThreadCreationFailed p :: (unit, nat) construction) \<and>
       done_flag p \<and> length (threads p) = 2 \<and> (\<forall>t\<in>set (threads p). \<not> joinable t) \<and>
       events p = [Spawned 0, Spawned 1, ShutdownSet, Joined 0, Joined 1]"
  using thread_creation_failure [of 2 3 "\<lambda>i. i < 2"]
  by (simp add: upt_rec numeral_2_eq_2)

text \<open>
  Claim C7 as the specification states it fails: a task that sits in the queue when the
  destructor writes \<open>done=true\<close> is invoked all the same by a worker that has read
  \<open>done\<close> as \<open>false\<close> just before. The pool is constructed with one worker and is
  handed one task; the task is in the queue when the destructor starts, with worker 0 past
  its check; the history shows the invocation after the flag was set, and the future yields
  the value.
\<close>

theorem queued_task_invoked_after_shutdown:
  "ThreadPool_init 1 every_thread_starts =
     Pool \<lparr>done_flag = False, work_queue = ThreadsafeQueue_init, threads = [\<lparr>joinable = True\<rparr>],
           shared_states = Map.empty, next_promise = 0, events = [Spawned 0]\<rparr> \<and>
   submit returns_seven
     \<lparr>done_flag = False, work_queue = ThreadsafeQueue_init, threads = [\<lparr>joinable = True\<rparr>],
      shared_states = Map.empty, next_promise = 0, events = [Spawned 0]\<rparr> =
     Inr (0, pool_with_task [\<lparr>joinable = True\<rparr>] [Spawned 0]) \<and>
   holds (work_queue (pool_with_task [\<lparr>joinable = True\<rparr>] [Spawned 0]))
     [FunctionWrapper_from \<lparr>callable = returns_seven, promise = 0\<rparr>] \<and>
   ThreadPool_destroy [0] (pool_with_task [\<lparr>joinable = True\<rparr>] [Spawned 0]) =
     Inr ([0 \<mapsto> Ready (Inr 7)], [Spawned 0, ShutdownSet, Invoked 0, Joined 0]) \<and>
   future_get [0 \<mapsto> Ready (Inr 7)] 0 = (Inr (Value 7) :: abort + (string, nat) got)"
proof (intro conjI)
  show "ThreadPool_init 1 every_thread_starts =
     Pool \<lparr>done_flag = False, work_queue = ThreadsafeQueue_init, threads = [\<lparr>joinable = True\<rparr>],
           shared_states = Map.empty, next_promise = 0, events = [Spawned 0]\<rparr>"
    by (rule one_worker_pool)
  show "submit returns_seven
     \<lparr>done_flag = False, work_queue = ThreadsafeQueue_init, threads = [\<lparr>joinable = True\<rparr>],
      shared_states = Map.empty, next_promise = 0, events = [Spawned 0]\<rparr> =
     Inr (0, pool_with_task [\<lparr>joinable = True\<rparr>] [Spawned 0])"
    by (rule submit_to_fresh_pool)
  show "holds (work_queue (pool_with_task [\<lparr>joinable = True\<rparr>] [Spawned 0]))
     [FunctionWrapper_from \<lparr>callable = returns_seven, promise = 0\<rparr>]"
    by (simp add: holds_def queue_chain_def pool_with_task_def numeral_2_eq_2)
  show "ThreadPool_destroy [0] (pool_with_task [\<lparr>joinable = True\<rparr>] [Spawned 0]) =
     Inr ([0 \<mapsto> Ready (Inr 7)], [Spawned 0, ShutdownSet, Invoked 0, Joined 0])"
    by (simp add: ThreadPool_destroy_def JoinThreads_destroy_def ThreadsafeQueue_destroy_def
        pool_with_task_def numeral_2_eq_2 FunctionWrapper_destroy_def FunctionWrapper_from_def
        abandon_def worker_iteration_def try_pop_value_def try_pop_head_value_def
        move_head_data_def pop_head_def get_tail_def invoke_def run_task_def
        FunctionWrapper_default_def join_thread_def returns_seven_def)
  show "future_get [0 \<mapsto> Ready (Inr 7)] 0 = (Inr (Value 7) :: abort + (string, nat) got)"
    by (simp add: future_get_def fulfilled_def)
qed

text \<open>
  Claim C7, as the code has it. The worker reads the flag only at the head of its loop. When
  it reads \<open>true\<close> it returns at once, touching neither the queue nor any task. When another
  thread sets the flag while pass \<open>k + 1\<close> of the loop runs, that pass is finished first (a
  task popped in it runs to completion and its future is ready), and the loop ends at its
  next check; every task still in the queue then stays there and is not invoked. While
  nobody sets the flag the loop does not end. For the destructor: the workers that are in
  the middle of a pass when \<open>done=true\<close> is written finish it, each invoking the task it
  pops, one per worker, oldest first; then every worker is joined; the tasks left in the
  queue are destroyed without ever being invoked, and their futures come to
  \<open>std::future_error\<close>.
\<close>

theorem worker_finishes_pass_then_exits:
  assumes "pool_holds p ts"
  shows "(done_flag p \<longrightarrow> worker_thread schedule p = Inr p) \<and>
         (\<not> done_flag p \<longrightarrow>
            (\<exists>p'. worker_thread (replicate k Quiet @ SetsDone # schedule) p = Inr p' \<and>
                  done_flag p' \<and>
                  events p' = events p @ map (\<lambda>t. Invoked (promise t)) (take (Suc k) ts) \<and>
                  (\<forall>t\<in>set (take (Suc k) ts).
                      future_get (shared_states p') (promise t) = Inr (fulfilled (callable t ()))) \<and>
                  holds (work_queue p') (map FunctionWrapper_from (drop (Suc k) ts)) \<and>
                  (\<forall>t\<in>set (drop (Suc k) ts).
                      Invoked (promise t) \<notin> set (events p') \<and>
                      shared_states p' (promise t) = Some NotReady))) \<and>
         (\<not> done_flag p \<longrightarrow> worker_thread (replicate k Quiet) p = Inl SpinsForever) \<and>
         (distinct in_pass \<and>
          list_all (\<lambda>i. i < length (threads p) \<and> joinable (threads p ! i)) in_pass \<longrightarrow>
            (\<exists>states history.
               ThreadPool_destroy in_pass p = Inr (states, history) \<and>
               history = events p @ ShutdownSet #
                 map (\<lambda>t. Invoked (promise t)) (take (length in_pass) ts) @
                 map Joined (filter (\<lambda>i. joinable (threads p ! i)) [0..<length (threads p)]) \<and>
               (\<forall>t\<in>set (take (length in_pass) ts).
                   future_get states (promise t) = Inr (fulfilled (callable t ()))) \<and>
               (\<forall>t\<in>set (drop (length in_pass) ts).
                   Invoked (promise t) \<notin> set history \<and>
                   future_get states (promise t) = Inr FutureError)))"
proof (intro conjI impI)
  assume "done_flag p"
  then show "worker_thread schedule p = Inr p" by (rule worker_thread_done)
next
  assume nd: "\<not> done_flag p"
  from pool_holds_passes[OF assms nd, of k] obtain p1
    where "worker_passes k p = Inr p1" "\<not> done_flag p1" by blast
  with worker_thread_passes[of k "[]" p]
  show "worker_thread (replicate k Quiet) p = Inl SpinsForever" by simp
next
  assume nd: "\<not> done_flag p"
  from pool_holds_passes[OF assms nd, of "Suc k"] obtain p1 where p1:
    "worker_passes (Suc k) p = Inr p1" "pool_holds p1 (drop (Suc k) ts)"
    "events p1 = events p @ map (\<lambda>t. Invoked (promise t)) (take (Suc k) ts)"
    "\<forall>t\<in>set (take (Suc k) ts). shared_states p1 (promise t) = Some (Ready (callable t ()))"
    by blast
  let ?p' = "p1\<lparr>done_flag := True\<rparr>"
  have w: "worker_thread (replicate k Quiet @ SetsDone # schedule) p = Inr ?p'"
    using p1(1) by (simp add: worker_thread_set_meanwhile)
  have rest: "\<forall>t\<in>set (drop (Suc k) ts).
                Invoked (promise t) \<notin> set (events ?p') \<and>
                shared_states ?p' (promise t) = Some NotReady"
    using p1(2) by (simp add: pool_holds_iff)
  have ran: "\<forall>t\<in>set (take (Suc k) ts).
               future_get (shared_states ?p') (promise t) = Inr (fulfilled (callable t ()))"
    using p1(4) by (simp add: future_get_def)
  have q: "holds (work_queue ?p') (map FunctionWrapper_from (drop (Suc k) ts))"
    using p1(2) by (simp add: pool_holds_iff)
  from w p1(3) rest ran q
  show "\<exists>p'. worker_thread (replicate k Quiet @ SetsDone # schedule) p = Inr p' \<and>
            done_flag p' \<and>
            events p' = events p @ map (\<lambda>t. Invoked (promise t)) (take (Suc k) ts) \<and>
            (\<forall>t\<in>set (take (Suc k) ts).
                future_get (shared_states p') (promise t) = Inr (fulfilled (callable t ()))) \<and>
            holds (work_queue p') (map FunctionWrapper_from (drop (Suc k) ts)) \<and>
            (\<forall>t\<in>set (drop (Suc k) ts).
                Invoked (promise t) \<notin> set (events p') \<and>
                shared_states p' (promise t) = Some NotReady)"
    by (intro exI[of _ ?p']) simp
next
  assume "distinct in_pass \<and>
          list_all (\<lambda>i. i < length (threads p) \<and> joinable (threads p ! i)) in_pass"
  then have "list_all (\<lambda>i. i < length (threads p) \<and> joinable (threads p ! i)) in_pass" ..
  from pool_holds_destroy[OF assms this]
  show "\<exists>states history.
          ThreadPool_destroy in_pass p = Inr (states, history) \<and>
          history = events p @ ShutdownSet #
            map (\<lambda>t. Invoked (promise t)) (take (length in_pass) ts) @
            map Joined (filter (\<lambda>i. joinable (threads p ! i)) [0..<length (threads p)]) \<and>
          (\<forall>t\<in>set (take (length in_pass) ts).
              future_get states (promise t) = Inr (fulfilled (callable t ()))) \<and>
          (\<forall>t\<in>set (drop (length in_pass) ts).
              Invoked (promise t) \<notin> set history \<and>
              future_get states (promise t) = Inr FutureError)" .
qed

theorem worker_finishes_pass_then_exits_witness:
  "\<exists>p p1 p2 p3 states.
     ThreadPool_init 1 every_thread_starts = (Pool p :: (string, nat) construction) \<and>
     submit (\<lambda>u. Inr 7) p = Inr (0, p1) \<and> submit (\<lambda>u. Inl ''failed'') p1 = Inr (1, p2) \<and>
     \<not> done_flag p2 \<and>
     worker_thread [SetsDone] p2 = Inr p3 \<and> done_flag p3 \<and>
     future_get (shared_states p3) 0 = Inr (Value 7) \<and>
     shared_states p3 1 = Some NotReady \<and> Invoked 1 \<notin> set (events p3) \<and>
     worker_thread [Quiet, Quiet] p2 = Inl SpinsForever \<and>
     ThreadPool_destroy [0] p2 =
       Inr (states, [Spawned 0, ShutdownSet, Invoked 0, Joined 0]) \<and>
     future_get states 0 = Inr (Value 7) \<and> future_get states 1 = Inr FutureError"
proof -
  let ?p = "\<lparr>done_flag = False, work_queue = ThreadsafeQueue_init, threads = [\<lparr>joinable = True\<rparr>],
            shared_states = Map.empty, next_promise = 0, events = [Spawned 0]\<rparr>
            :: (string, nat) ThreadPool"
  let ?t1 = "\<lparr>callable = \<lambda>u. Inr 7, promise = 0\<rparr> :: (string, nat) packaged_task"
  let ?t2 = "\<lparr>callable = \<lambda>u. Inl ''failed'', promise = Suc 0\<rparr> :: (string, nat) packaged_task"
  have i: "ThreadPool_init 1 every_thread_starts = Pool ?p" by (rule one_worker_pool)
  from pool_holds_init[OF i] have "pool_holds ?p []" by simp
  from pool_holds_submit[OF this, of "\<lambda>u. Inr 7"] obtain p1
    where p1: "submit (\<lambda>u. Inr 7) ?p = Inr (0, p1)" "pool_holds p1 [?t1]"
      "next_promise p1 = Suc 0" "done_flag p1 = False"
      "threads p1 = [\<lparr>joinable = True\<rparr>]" "events p1 = [Spawned 0]"
    by auto
  from pool_holds_submit[OF p1(2), of "\<lambda>u. Inl ''failed''"] p1(3,4,5,6) obtain p2
    where p2: "submit (\<lambda>u. Inl ''failed'') p1 = Inr (1, p2)" "pool_holds p2 [?t1, ?t2]"
      "\<not> done_flag p2" "threads p2 = [\<lparr>joinable = True\<rparr>]" "events p2 = [Spawned 0]"
    by auto
  have two: "replicate 2 Quiet = [Quiet, Quiet :: (string, nat) meanwhile]"
    by (simp add: numeral_2_eq_2)
  have v: "distinct [0::nat] \<and>
           list_all (\<lambda>i. i < length (threads p2) \<and> joinable (threads p2 ! i)) [0]"
    using p2(4) by simp
  from worker_finishes_pass_then_exits[OF p2(2), of "[]" 0 "[0]"] p2(3,4,5) v
    worker_finishes_pass_then_exits[OF p2(2), of "[]" 2 "[]"] two obtain p3 states
    where "worker_thread [SetsDone] p2 = Inr p3" "done_flag p3"
      "future_get (shared_states p3) 0 = Inr (fulfilled (Inr 7))"
      "shared_states p3 (Suc 0) = Some NotReady" "Invoked (Suc 0) \<notin> set (events p3)"
      "worker_thread [Quiet, Quiet] p2 = Inl SpinsForever"
      "ThreadPool_destroy [0] p2 = Inr (states, [Spawned 0, ShutdownSet, Invoked 0, Joined 0])"
      "future_get states 0 = Inr (fulfilled (Inr 7))"
      "future_get states (Suc 0) = Inr FutureError"
    by auto
  with i p1(1) p2(1,3) show ?thesis by (auto simp: fulfilled_def)
qed






text \<open>
  Claim C10. Invoking a default-constructed \<open>FunctionWrapper\<close> dereferences its null
  \<open>impl\<close>. In every state a pool can reach, \<open>try_pop(task)\<close> on a default-constructed
  \<open>task\<close> returns \<open>true\<close> exactly when it has filled \<open>task\<close> with a non-null
  \<open>impl\<close>, and the worker invokes \<open>task\<close> only then: a pass through the loop body never
  meets the null dereference.
\<close>

theorem empty_wrapper_never_invoked:
  "invoke run_task FunctionWrapper_default p0 = Inl NullDereference \<and>
   (reachable p \<longrightarrow>
      (\<exists>p'. worker_iteration p = Inr p') \<and>
      (\<forall>popped task q'.
          try_pop_value FunctionWrapper_default (work_queue p) = Inr (popped, task, q') \<longrightarrow>
          popped = (impl task \<noteq> None)))"
proof (intro conjI impI)
  show "invoke run_task FunctionWrapper_default p0 = Inl NullDereference"
    by (simp add: invoke_def FunctionWrapper_default_def)
next
  assume "reachable p"
  then obtain ts where ts: "pool_holds p ts" using reachable_pool_holds by blast
  from pool_holds_iteration[OF ts] show "\<exists>p'. worker_iteration p = Inr p'" by blast
  show "\<forall>popped task q'.
          try_pop_value FunctionWrapper_default (work_queue p) = Inr (popped, task, q') \<longrightarrow>
          popped = (impl task \<noteq> None)"
  proof (cases ts)
    case Nil
    with ts have "holds (work_queue p) []"
      by (simp add: pool_holds_iff)
    then have "empty_queue (work_queue p)"
      by (simp add: holds_empty)
    then show ?thesis
      by (simp add: try_pop_value_empty FunctionWrapper_default_def)
  next
    case (Cons t ts')
    with ts have "holds (work_queue p) (FunctionWrapper_from t # map FunctionWrapper_from ts')"
      by (simp add: pool_holds_iff)
    from holds_try_pop_value[OF this, of FunctionWrapper_default] show ?thesis
      by (auto simp: FunctionWrapper_from_def)
  qed
qed


theorem empty_wrapper_never_invoked_witness:
  "\<exists>p fut p1 task q' p2.
     ThreadPool_init 1 every_thread_starts = (Pool p :: (string, nat) construction) \<and>
     submit (\<lambda>u. Inr 7) p = Inr (fut, p1) \<and> reachable p1 \<and>
     try_pop_value FunctionWrapper_default (work_queue p1) = Inr (True, task, q') \<and>
     impl task \<noteq> None \<and> worker_iteration p1 = Inr p2 \<and>
     invoke run_task FunctionWrapper_default p1 = Inl NullDereference"
proof -
  let ?p = "\<lparr>done_flag = False, work_queue = ThreadsafeQueue_init, threads = [\<lparr>joinable = True\<rparr>],
            shared_states = Map.empty, next_promise = 0, events = [Spawned 0]\<rparr>
            :: (string, nat) ThreadPool"
  let ?t = "\<lparr>callable = \<lambda>u. Inr 7, promise = next_promise ?p\<rparr> :: (string, nat) packaged_task"
  have i: "ThreadPool_init 1 every_thread_starts = Pool ?p" by (rule one_worker_pool)
  then have r: "reachable ?p" by (rule reachable.constructed)
  from pool_holds_init[OF i] have "pool_holds ?p []" by simp
  from pool_holds_submit[OF this, of "\<lambda>u. Inr 7"] obtain p1
    where p1: "submit (\<lambda>u. Inr 7) ?p = Inr (next_promise ?p, p1)" "pool_holds p1 ([] @ [?t])"
    by blast
  have r1: "reachable p1" using reachable.submitted[OF r p1(1)] .
  from p1(2) have "holds (work_queue p1) (FunctionWrapper_from ?t # [])"
    by (simp add: pool_holds_iff)
  from holds_try_pop_value[OF this, of FunctionWrapper_default] obtain q'
    where q': "try_pop_value FunctionWrapper_default (work_queue p1) =
                 Inr (True, FunctionWrapper_from ?t, q')"
    by blast
  from empty_wrapper_never_invoked[of p1 p1] r1 q' obtain p2
    where "worker_iteration p1 = Inr p2" "impl (FunctionWrapper_from ?t) \<noteq> None"
      "invoke run_task FunctionWrapper_default p1 = Inl NullDereference"
    by blast
  with i p1(1) r1 q' show ?thesis by blast
qed

end
